theory Spec2Isabelle
  imports Main "HOL-Library.Word"
begin

section \<open>The word list container of Document\_Word\_List.c\<close>

text \<open>
  The struct \<^verbatim>\<open>Document_Word_List\<close> is declared in Document\_Word\_List.h; its fields are
  the ones Document\_Word\_List.c reads and writes. A token is a
  \<^verbatim>\<open>uint_fast32_t\<close>, an unsigned integer of some width of at least 32 bits: the width
  is the type parameter \<open>'w\<close>. Tokens are only compared and used as indices, so no
  arithmetic on them occurs. Sizes (\<^verbatim>\<open>size_t\<close>) are natural numbers: every size the
  code computes is the size of an allocation that has succeeded. Allocation itself is
  taken to succeed (\<^verbatim>\<open>ASSERT_ALLOC\<close> never fires).

  An array that the code reaches through a pointer is a list; the length of the list is
  the number of elements allocated.
\<close>

record 'a Document_Word_List =
  data :: "'a list list"
  arrays_lengths :: "nat list"
  max_array_length :: nat
  number_of_arrays :: nat
  next_free_array :: nat
  intersection_data :: bool

text \<open>
  The enumeration \<^verbatim>\<open>Intersection_Mode\<close> is declared in the same header. The only
  enumerator the code names is \<^verbatim>\<open>INTERSECTION_MODE_DEFAULTS\<close>; every other value of the
  enumeration type is \<open>INTERSECTION_MODE_OTHER k\<close>.
\<close>

datatype Intersection_Mode = INTERSECTION_MODE_DEFAULTS | INTERSECTION_MODE_OTHER nat

text \<open>
  A failed \<^verbatim>\<open>ASSERT_MSG\<close> or \<^verbatim>\<open>ASSERT_FMSG\<close> ends the call; each assertion of the
  file is one error value, named after its message. The last two values stand for the
  undefined behaviour of an access outside an allocated array.
\<close>

datatype error =
    Number_Of_Arrays_Is_0
  | Max_Array_Length_Is_0
  | New_Data_Length_Is_0
  | New_Data_Is_Too_Large
  | All_Arrays_Are_In_Use
  | Data_Length_Is_0
  | Invalid_Intersection_Mode
  | Data_Is_Too_Large
  | Guard_Index_Out_Of_Bounds
  | Result_Index_Out_Of_Bounds

text \<open>
  The error taxonomy of the specification (section 7): zero-length inputs and an
  unsupported mode are invalid arguments, appended or queried data longer than the
  per-subset capacity exceeds the capacity, an append after all slots are filled finds
  the container full. An access out of bounds is none of these.
\<close>

datatype error_kind = InvalidArgument | CapacityExceeded | ContainerFull | UndefinedBehaviour

fun kind_of :: "error \<Rightarrow> error_kind" where
  "kind_of Number_Of_Arrays_Is_0 = InvalidArgument"
| "kind_of Max_Array_Length_Is_0 = InvalidArgument"
| "kind_of New_Data_Length_Is_0 = InvalidArgument"
| "kind_of New_Data_Is_Too_Large = CapacityExceeded"
| "kind_of All_Arrays_Are_In_Use = ContainerFull"
| "kind_of Data_Length_Is_0 = InvalidArgument"
| "kind_of Invalid_Intersection_Mode = InvalidArgument"
| "kind_of Data_Is_Too_Large = CapacityExceeded"
| "kind_of Guard_Index_Out_Of_Bounds = UndefinedBehaviour"
| "kind_of Result_Index_Out_Of_Bounds = UndefinedBehaviour"

subsection \<open>Create\_Document\_Word\_List\<close>

text \<open>All storage comes from \<^verbatim>\<open>CALLOC\<close>: every cell, length and flag starts as zero.\<close>

definition Create_Document_Word_List :: "nat \<Rightarrow> nat \<Rightarrow> error + 'w::len word Document_Word_List" where
  "Create_Document_Word_List n m =
     (if n = 0 then Inl Number_Of_Arrays_Is_0
      else if m = 0 then Inl Max_Array_Length_Is_0
      else Inr \<lparr> data = replicate n (replicate m 0),
                 arrays_lengths = replicate n 0,
                 max_array_length = m,
                 number_of_arrays = n,
                 next_free_array = 0,
                 intersection_data = False \<rparr>)"

subsection \<open>Append\_Data\_To\_Document\_Word\_List\<close>

text \<open>
  The function returns nothing and writes through \<open>object\<close>: the model returns the failed
  assertion, if any, and the object as the call leaves it. \<^verbatim>\<open>memcpy\<close> overwrites the
  first \<open>data_length\<close> cells of the row at the cursor with the first \<open>data_length\<close>
  elements of \<open>new_data\<close>.
\<close>

definition memcpy :: "'a list \<Rightarrow> 'a list \<Rightarrow> nat \<Rightarrow> 'a list" where
  "memcpy dest src n = take n src @ drop n dest"

definition Append_Data_To_Document_Word_List ::
  "'w::len word Document_Word_List \<Rightarrow> 'w word list \<Rightarrow> nat \<Rightarrow> error option \<times> 'w word Document_Word_List" where
  "Append_Data_To_Document_Word_List object new_data data_length =
     (if data_length = 0 then (Some New_Data_Length_Is_0, object)
      else if \<not> data_length \<le> max_array_length object then (Some New_Data_Is_Too_Large, object)
      else if \<not> number_of_arrays object > next_free_array object
        then (Some All_Arrays_Are_In_Use, object)
      else (None,
        object \<lparr> data := (data object)
                   [next_free_array object :=
                      memcpy (data object ! next_free_array object) new_data data_length],
                 arrays_lengths := (arrays_lengths object) [next_free_array object := data_length],
                 next_free_array := next_free_array object + 1 \<rparr>))"

subsection \<open>Intersect\_Data\_With\_Document\_Word\_List\<close>

text \<open>
  The state of the three nested loops: the guard array (its length is
  \<^verbatim>\<open>size_multiple_guard\<close>) and the result under construction.
\<close>

record 'a loop_state =
  multiple_guard :: "bool list"
  intersection_result :: "'a Document_Word_List"

definition multiple_guard_realloc_step :: nat where
  "multiple_guard_realloc_step = 1000"

text \<open>
  \<^verbatim>\<open>REALLOC\<close> is a macro of Error\_Handling/Dynamic\_Memory.h, over the C library's
  \<^verbatim>\<open>realloc\<close>: the old cells keep their content and the content of a new cell is
  indeterminate. The parameter \<open>fresh\<close> says what each new cell holds.
\<close>

definition REALLOC :: "(nat \<Rightarrow> bool) \<Rightarrow> bool list \<Rightarrow> nat \<Rightarrow> bool list" where
  "REALLOC fresh g n = take n g @ map fresh [length g ..< n]"

text \<open>
  Lines 205 to 212, for the value \<open>v\<close> of \<^verbatim>\<open>data [i3]\<close>: a single \<^verbatim>\<open>if\<close>, on
  \<^verbatim>\<open>data [i3] > size_multiple_guard\<close>, that enlarges the guard by one step.
\<close>

definition grow_guard :: "(nat \<Rightarrow> bool) \<Rightarrow> bool list \<Rightarrow> 'w::len word \<Rightarrow> bool list" where
  "grow_guard fresh g v =
     (if unat v > length g then REALLOC fresh g (length g + multiple_guard_realloc_step) else g)"

text \<open>
  The body of \<^verbatim>\<open>if (object->data [i][i2] == data [i3])\<close>, lines 205 to 219: the
  conditional growth, the read of the guard at index \<open>v\<close>, and for an unmarked value
  the write into row \<open>i\<close> of the result, the increment of its length and the mark.
\<close>

definition on_match :: "(nat \<Rightarrow> bool) \<Rightarrow> nat \<Rightarrow> 'w::len word \<Rightarrow> 'w word loop_state \<Rightarrow> error + 'w word loop_state" where
  "on_match fresh i v st =
     (let g = grow_guard fresh (multiple_guard st) v
      in if length g \<le> unat v then Inl Guard_Index_Out_Of_Bounds
         else if g ! unat v = False then
           (let r = intersection_result st; n = arrays_lengths r ! i
            in if length (data r ! i) \<le> n then Inl Result_Index_Out_Of_Bounds
               else Inr \<lparr> multiple_guard = g [unat v := True],
                          intersection_result =
                            r \<lparr> data := (data r) [i := (data r ! i) [n := v]],
                                arrays_lengths := (arrays_lengths r) [i := n + 1] \<rparr> \<rparr>)
         else Inr (st \<lparr> multiple_guard := g \<rparr>))"

text \<open>A \<^verbatim>\<open>for\<close> loop over the elements of a list, left at the first failure.\<close>

fun for_each :: "('a \<Rightarrow> 's \<Rightarrow> error + 's) \<Rightarrow> 'a list \<Rightarrow> 's \<Rightarrow> error + 's" where
  "for_each body [] s = Inr s"
| "for_each body (x # xs) s =
     (case body x s of Inl e \<Rightarrow> Inl e | Inr s' \<Rightarrow> for_each body xs s')"

text \<open>
  The loop over \<open>i3\<close> compares one element \<open>x\<close> of row \<open>i\<close> with the first
  \<open>data_length\<close> elements of \<open>dat\<close> (the parameter \<^verbatim>\<open>data\<close>); the loop over \<open>i2\<close> runs
  through the first \<open>arrays_lengths [i]\<close> elements of row \<open>i\<close>; the loop over \<open>i\<close> clears
  the guard (\<^verbatim>\<open>memset\<close> over its current size) and handles row \<open>i\<close>.
\<close>

definition loop_i3 ::
  "(nat \<Rightarrow> bool) \<Rightarrow> nat \<Rightarrow> 'w::len word list \<Rightarrow> nat \<Rightarrow> 'w word \<Rightarrow> 'w word loop_state \<Rightarrow> error + 'w word loop_state" where
  "loop_i3 fresh i dat data_length x =
     for_each (\<lambda>v st. if x = v then on_match fresh i v st else Inr st) (take data_length dat)"

definition loop_i2 ::
  "(nat \<Rightarrow> bool) \<Rightarrow> 'w::len word Document_Word_List \<Rightarrow> 'w word list \<Rightarrow> nat \<Rightarrow> nat \<Rightarrow> 'w word loop_state \<Rightarrow> error + 'w word loop_state" where
  "loop_i2 fresh object dat data_length i =
     for_each (loop_i3 fresh i dat data_length) (take (arrays_lengths object ! i) (data object ! i))"

definition memset_guard :: "'a loop_state \<Rightarrow> 'a loop_state" where
  "memset_guard st = st \<lparr> multiple_guard := replicate (length (multiple_guard st)) False \<rparr>"

definition loop_i ::
  "(nat \<Rightarrow> bool) \<Rightarrow> 'w::len word Document_Word_List \<Rightarrow> 'w word list \<Rightarrow> nat \<Rightarrow> 'w word loop_state \<Rightarrow> error + 'w word loop_state" where
  "loop_i fresh object dat data_length =
     for_each (\<lambda>i st. loop_i2 fresh object dat data_length i (memset_guard st))
       [0 ..< number_of_arrays object]"

definition Intersect_Data_With_Document_Word_List ::
  "(nat \<Rightarrow> bool) \<Rightarrow> 'w::len word Document_Word_List \<Rightarrow> 'w word list \<Rightarrow> nat \<Rightarrow> Intersection_Mode
     \<Rightarrow> error + 'w word Document_Word_List" where
  "Intersect_Data_With_Document_Word_List fresh object dat data_length mode =
     (if data_length = 0 then Inl Data_Length_Is_0
      else if mode \<noteq> INTERSECTION_MODE_DEFAULTS then Inl Invalid_Intersection_Mode
      else if \<not> data_length \<le> max_array_length object then Inl Data_Is_Too_Large
      else case Create_Document_Word_List (number_of_arrays object) (max_array_length object) of
             Inl e \<Rightarrow> Inl e
           | Inr new_object \<Rightarrow>
               (case loop_i fresh object dat data_length
                       \<lparr> multiple_guard = replicate multiple_guard_realloc_step False,
                         intersection_result =
                           new_object \<lparr> next_free_array := next_free_array object,
                                        intersection_data := True \<rparr> \<rparr> of
                  Inl e \<Rightarrow> Inl e
                | Inr st \<Rightarrow> Inr (intersection_result st)))"

section \<open>Valid containers\<close>

text \<open>
  The used part of row \<open>i\<close>: its first \<open>arrays_lengths [i]\<close> elements.
\<close>

definition array_content :: "'a Document_Word_List \<Rightarrow> nat \<Rightarrow> 'a list" where
  "array_content object i = take (arrays_lengths object ! i) (data object ! i)"

text \<open>
  The shape \<^verbatim>\<open>Create_Document_Word_List\<close> allocates: \<open>number_of_arrays\<close> rows of
  \<open>max_array_length\<close> cells each, and one length per row.
\<close>

definition well_formed :: "'a Document_Word_List \<Rightarrow> bool" where
  "well_formed object \<longleftrightarrow>
     length (data object) = number_of_arrays object \<and>
     length (arrays_lengths object) = number_of_arrays object \<and>
     (\<forall>row \<in> set (data object). length row = max_array_length object)"

text \<open>
  The invariants of the container: the cursor is at most the number of rows, no
  recorded length exceeds the row capacity, and the rows from the cursor on are empty.
\<close>

definition invariants :: "'a Document_Word_List \<Rightarrow> bool" where
  "invariants object \<longleftrightarrow>
     next_free_array object \<le> number_of_arrays object \<and>
     (\<forall>n \<in> set (arrays_lengths object). n \<le> max_array_length object) \<and>
     (\<forall>n \<in> set (drop (next_free_array object) (arrays_lengths object)). n = 0)"

definition valid :: "'a Document_Word_List \<Rightarrow> bool" where
  "valid object \<longleftrightarrow>
     well_formed object \<and> invariants object \<and>
     0 < number_of_arrays object \<and> 0 < max_array_length object"

section \<open>Invariants of the intersection loops\<close>

text \<open>
  While row \<open>i\<close> is handled, starting from the result \<open>r0\<close>: the result keeps its
  shape, the other rows are those of \<open>r0\<close>, the used part of row \<open>i\<close> has no duplicates
  and holds only values of row \<open>i\<close> of \<open>object\<close> that are in the query, every value in
  it is marked in the guard, and the guard never shrinks below its first size.
\<close>

definition slot_inv ::
  "'w::len word Document_Word_List \<Rightarrow> 'w word list \<Rightarrow> nat \<Rightarrow> nat \<Rightarrow> 'w word Document_Word_List
     \<Rightarrow> 'w word loop_state \<Rightarrow> bool" where
  "slot_inv object dat data_length i r0 st \<longleftrightarrow>
     well_formed (intersection_result st) \<and>
     number_of_arrays (intersection_result st) = number_of_arrays object \<and>
     max_array_length (intersection_result st) = max_array_length object \<and>
     next_free_array (intersection_result st) = next_free_array r0 \<and>
     intersection_data (intersection_result st) = intersection_data r0 \<and>
     (\<forall>j. j \<noteq> i \<longrightarrow> data (intersection_result st) ! j = data r0 ! j \<and>
                     arrays_lengths (intersection_result st) ! j = arrays_lengths r0 ! j) \<and>
     arrays_lengths (intersection_result st) ! i \<le> max_array_length object \<and>
     distinct (array_content (intersection_result st) i) \<and>
     set (array_content (intersection_result st) i)
       \<subseteq> set (array_content object i) \<inter> set (take data_length dat) \<and>
     (\<forall>v \<in> set (array_content (intersection_result st) i).
        unat v < length (multiple_guard st) \<and> multiple_guard st ! unat v) \<and>
     multiple_guard_realloc_step \<le> length (multiple_guard st)"

definition slot_good ::
  "'w::len word Document_Word_List \<Rightarrow> 'w word list \<Rightarrow> nat \<Rightarrow> 'w word Document_Word_List \<Rightarrow> nat \<Rightarrow> bool" where
  "slot_good object dat data_length r j \<longleftrightarrow>
     arrays_lengths r ! j \<le> max_array_length object \<and>
     distinct (array_content r j) \<and>
     set (array_content r j) \<subseteq> set (array_content object j) \<inter> set (take data_length dat)"

text \<open>Before row \<open>k\<close> is handled: the rows from \<open>k\<close> on are still empty.\<close>

definition outer_inv ::
  "'w::len word Document_Word_List \<Rightarrow> 'w word list \<Rightarrow> nat \<Rightarrow> nat \<Rightarrow> 'w word loop_state \<Rightarrow> bool" where
  "outer_inv object dat data_length k st \<longleftrightarrow>
     well_formed (intersection_result st) \<and>
     number_of_arrays (intersection_result st) = number_of_arrays object \<and>
     max_array_length (intersection_result st) = max_array_length object \<and>
     next_free_array (intersection_result st) = next_free_array object \<and>
     intersection_data (intersection_result st) \<and>
     multiple_guard_realloc_step \<le> length (multiple_guard st) \<and>
     (\<forall>j < number_of_arrays object.
        slot_good object dat data_length (intersection_result st) j \<and>
        (k \<le> j \<longrightarrow> arrays_lengths (intersection_result st) ! j = 0))"

text \<open>
  For tokens below the first size of the guard: a marked cell belongs to a value of the
  row under construction, and the rows before \<open>k\<close> hold the whole intersection.
\<close>

definition guard_exact :: "nat \<Rightarrow> 'w::len word loop_state \<Rightarrow> bool" where
  "guard_exact i st \<longleftrightarrow>
     (\<forall>u < length (multiple_guard st).
        multiple_guard st ! u \<longrightarrow> u \<in> unat ` set (array_content (intersection_result st) i))"

definition complete_upto ::
  "'w::len word Document_Word_List \<Rightarrow> 'w word list \<Rightarrow> nat \<Rightarrow> nat \<Rightarrow> 'w word loop_state \<Rightarrow> bool" where
  "complete_upto object dat data_length k st \<longleftrightarrow>
     outer_inv object dat data_length k st \<and>
     (\<forall>j < k. j < number_of_arrays object \<longrightarrow>
        set (array_content (intersection_result st) j)
          = set (array_content object j) \<inter> set (take data_length dat))"

section \<open>Concrete containers\<close>

text \<open>What \<open>Create_Document_Word_List 2 5\<close> returns.\<close>

definition created_list :: "32 word Document_Word_List" where
  "created_list =
     \<lparr> data = [[0, 0, 0, 0, 0], [0, 0, 0, 0, 0]], arrays_lengths = [0, 0],
       max_array_length = 5, number_of_arrays = 2, next_free_array = 0,
       intersection_data = False \<rparr>"

text \<open>
  The scenario of the specification: two rows of capacity five, filled with
  \<open>[1, 2, 3, 2, 1]\<close> and \<open>[4, 5, 6]\<close>, and its intersection with the query \<open>[1, 2, 4]\<close>.
\<close>

definition example_list :: "32 word Document_Word_List" where
  "example_list =
     (case Create_Document_Word_List 2 5 of
        Inr object \<Rightarrow>
          snd (Append_Data_To_Document_Word_List
                 (snd (Append_Data_To_Document_Word_List object [1, 2, 3, 2, 1] 5)) [4, 5, 6] 3))"

definition example_result :: "32 word Document_Word_List" where
  "example_result =
     \<lparr> data = [[1, 2, 0, 0, 0], [4, 0, 0, 0, 0]], arrays_lengths = [2, 1],
       max_array_length = 5, number_of_arrays = 2, next_free_array = 2,
       intersection_data = True \<rparr>"

text \<open>Two rows that share the value 2, the first with a repetition.\<close>

definition shared_list :: "32 word Document_Word_List" where
  "shared_list =
     (case Create_Document_Word_List 2 3 of
        Inr object \<Rightarrow>
          snd (Append_Data_To_Document_Word_List
                 (snd (Append_Data_To_Document_Word_List object [2, 1, 2] 3)) [7, 2] 2))"

definition shared_result :: "32 word Document_Word_List" where
  "shared_result =
     \<lparr> data = [[2, 0, 0], [7, 2, 0]], arrays_lengths = [1, 2],
       max_array_length = 3, number_of_arrays = 2, next_free_array = 2,
       intersection_data = True \<rparr>"

text \<open>Three rows of which two are filled: the last row stays empty.\<close>

definition sparse_list :: "32 word Document_Word_List" where
  "sparse_list =
     (case Create_Document_Word_List 3 2 of
        Inr object \<Rightarrow>
          snd (Append_Data_To_Document_Word_List
                 (snd (Append_Data_To_Document_Word_List object [8, 9] 2)) [9] 1))"

definition sparse_result :: "32 word Document_Word_List" where
  "sparse_result =
     \<lparr> data = [[9, 0], [9, 0], [0, 0]], arrays_lengths = [1, 1, 0],
       max_array_length = 2, number_of_arrays = 3, next_free_array = 2,
       intersection_data = True \<rparr>"

text \<open>One full row holding the single token 1000, and one holding the token 2500.\<close>

definition boundary_list :: "32 word Document_Word_List" where
  "boundary_list =
     (case Create_Document_Word_List 1 1 of
        Inr object \<Rightarrow> snd (Append_Data_To_Document_Word_List object [1000] 1))"

definition far_list :: "32 word Document_Word_List" where
  "far_list =
     (case Create_Document_Word_List 1 1 of
        Inr object \<Rightarrow> snd (Append_Data_To_Document_Word_List object [2500] 1))"

text \<open>
  One full row holding the token 1500 twice, and its intersection with the query
  \<open>[1500, 7]\<close> when the cells the guard grows by are unmarked.
\<close>

definition grown_list :: "32 word Document_Word_List" where
  "grown_list =
     (case Create_Document_Word_List 1 2 of
        Inr object \<Rightarrow> snd (Append_Data_To_Document_Word_List object [1500, 1500] 2))"

definition grown_result :: "32 word Document_Word_List" where
  "grown_result =
     \<lparr> data = [[1500, 0]], arrays_lengths = [1],
       max_array_length = 2, number_of_arrays = 1, next_free_array = 1,
       intersection_data = True \<rparr>"

section \<open>Loops and their invariants\<close>

lemma unat_same: "unat (v :: 'w::len word) = unat w \<Longrightarrow> v = w"
  by (simp add: word_unat_eq_iff)

lemma for_each_invariant:
  assumes "for_each body xs s = Inr s'" and "P s"
    and "\<And>x s s'. x \<in> set xs \<Longrightarrow> P s \<Longrightarrow> body x s = Inr s' \<Longrightarrow> P s'"
  shows "P s'"
  using assms
proof (induction xs arbitrary: s)
  case Nil then show ?case by simp
next
  case (Cons x xs)
  from Cons.prems(1) obtain s1 where b: "body x s = Inr s1" and r: "for_each body xs s1 = Inr s'"
    by (auto split: sum.splits)
  have p: "P s1" using Cons.prems(3)[OF _ Cons.prems(2) b] by simp
  show ?case by (rule Cons.IH[OF r p]) (use Cons.prems(3) in auto)
qed

lemma for_each_total:
  assumes "P s"
    and "\<And>x s. x \<in> set xs \<Longrightarrow> P s \<Longrightarrow> \<exists>s'. body x s = Inr s' \<and> P s'"
  shows "\<exists>s'. for_each body xs s = Inr s' \<and> P s'"
  using assms
proof (induction xs arbitrary: s)
  case Nil then show ?case by simp
next
  case (Cons x xs)
  from Cons.prems(2)[of x s] Cons.prems(1) obtain s1 where b: "body x s = Inr s1" and p: "P s1"
    by auto
  have "\<exists>s'. for_each body xs s1 = Inr s' \<and> P s'"
    by (rule Cons.IH[OF p]) (use Cons.prems(2) in auto)
  then obtain s' where "for_each body xs s1 = Inr s'" "P s'"
    by auto
  then show ?case using b by simp
qed

lemma for_each_upt_invariant:
  assumes "for_each body [a ..< b] s = Inr s'" and "P a s" and "a \<le> b"
    and "\<And>i s s'. a \<le> i \<Longrightarrow> i < b \<Longrightarrow> P i s \<Longrightarrow> body i s = Inr s' \<Longrightarrow> P (Suc i) s'"
  shows "P b s'"
  using assms
proof (induction "b - a" arbitrary: a s)
  case 0 then show ?case by simp
next
  case (Suc k)
  then have lt: "a < b" by simp
  with Suc.prems(1) obtain s1 where b: "body a s = Inr s1" and r: "for_each body [Suc a ..< b] s1 = Inr s'"
    by (auto simp: upt_conv_Cons split: sum.splits)
  have p: "P (Suc a) s1" using Suc.prems(4)[OF _ lt Suc.prems(2) b] by simp
  have k: "k = b - Suc a" using Suc.hyps(2) by simp
  show ?case by (rule Suc.hyps(1)[OF k r p]) (use lt Suc.prems(4) in auto)
qed

lemma take_Suc_update: "n < length xs \<Longrightarrow> take (Suc n) (xs [n := v]) = take n xs @ [v]"
  by (simp add: take_Suc_conv_app_nth)

lemma grow_guard_length: "length g \<le> length (grow_guard fresh g v)"
  by (simp add: grow_guard_def REALLOC_def)

lemma grow_guard_nth: "u < length g \<Longrightarrow> grow_guard fresh g v ! u = g ! u"
  by (simp add: grow_guard_def REALLOC_def nth_append)

lemma grow_guard_small: "unat v \<le> length g \<Longrightarrow> grow_guard fresh g v = g"
  by (simp add: grow_guard_def)

lemma distinct_subset_room:
  assumes "distinct L" "set L \<subseteq> set Q" "v \<in> set Q" "v \<notin> set L"
  shows "length L < length Q"
proof -
  have "card (insert v (set L)) \<le> card (set Q)"
    by (rule card_mono) (use assms in auto)
  moreover have "card (insert v (set L)) = Suc (length L)"
    using assms by (simp add: distinct_card)
  moreover have "card (set Q) \<le> length Q" by (rule card_length)
  ultimately show ?thesis by simp
qed

lemma on_match_cases:
  assumes inv: "slot_inv object dat data_length i r0 st"
    and i: "i < number_of_arrays object"
    and dl: "data_length \<le> max_array_length object"
    and vx: "v \<in> set (array_content object i)"
    and vq: "v \<in> set (take data_length dat)"
  shows "(on_match fresh i v st = Inl Guard_Index_Out_Of_Bounds \<and>
            length (grow_guard fresh (multiple_guard st) v) \<le> unat v)
         \<or> (\<exists>st'. on_match fresh i v st = Inr st' \<and> slot_inv object dat data_length i r0 st')"
proof -
  let ?g = "grow_guard fresh (multiple_guard st) v"
  let ?r = "intersection_result st"
  let ?n = "arrays_lengths ?r ! i"
  let ?L = "array_content ?r i"
  have wf: "well_formed ?r" and na: "number_of_arrays ?r = number_of_arrays object"
    and ma: "max_array_length ?r = max_array_length object"
    and nle: "?n \<le> max_array_length object"
    and dist: "distinct ?L"
    and sub: "set ?L \<subseteq> set (array_content object i) \<inter> set (take data_length dat)"
    and marks: "\<forall>v \<in> set ?L. unat v < length (multiple_guard st) \<and> multiple_guard st ! unat v"
    and big: "multiple_guard_realloc_step \<le> length (multiple_guard st)"
    using inv by (simp_all add: slot_inv_def)
  have il: "i < length (data ?r)" "i < length (arrays_lengths ?r)"
    using wf i na by (simp_all add: well_formed_def)
  have rowlen: "length (data ?r ! i) = max_array_length object"
    using wf il ma by (simp add: well_formed_def)
  have lenL: "length ?L = ?n" using nle rowlen by (simp add: array_content_def)
  show ?thesis
  proof (cases "length ?g \<le> unat v")
    case True
    then show ?thesis by (simp add: on_match_def Let_def)
  next
    case inb: False
    show ?thesis
    proof (cases "?g ! unat v")
      case True
      let ?st' = "st \<lparr> multiple_guard := ?g \<rparr>"
      have om: "on_match fresh i v st = Inr ?st'"
        using inb True by (simp add: on_match_def Let_def)
      have "slot_inv object dat data_length i r0 ?st'"
        using inv grow_guard_length[of "multiple_guard st" fresh v]
        by (auto simp: slot_inv_def grow_guard_nth)
      then show ?thesis using om by simp
    next
      case unmarked: False
      have notin: "v \<notin> set ?L"
      proof
        assume "v \<in> set ?L"
        with marks have "unat v < length (multiple_guard st)" "multiple_guard st ! unat v" by auto
        then have "?g ! unat v" by (simp add: grow_guard_nth)
        with unmarked show False by simp
      qed
      have "length ?L < length (take data_length dat)"
        by (rule distinct_subset_room[OF dist _ vq notin]) (use sub in auto)
      then have room: "?n < max_array_length object" using lenL dl by simp
      let ?r' = "?r \<lparr> data := (data ?r) [i := (data ?r ! i) [?n := v]],
                     arrays_lengths := (arrays_lengths ?r) [i := ?n + 1] \<rparr>"
      let ?st' = "\<lparr> multiple_guard = ?g [unat v := True], intersection_result = ?r' \<rparr>"
      have om: "on_match fresh i v st = Inr ?st'"
        using inb unmarked room rowlen by (simp add: on_match_def Let_def)
      have cont: "array_content ?r' i = ?L @ [v]"
        using il room rowlen by (simp add: array_content_def take_Suc_update)
      have wf': "well_formed ?r'"
        using wf il rowlen ma by (auto simp: well_formed_def dest!: set_update_subset_insert[THEN subsetD])
      have frame: "\<forall>j. j \<noteq> i \<longrightarrow> data ?r' ! j = data r0 ! j \<and>
                     arrays_lengths ?r' ! j = arrays_lengths r0 ! j"
        using inv by (simp add: slot_inv_def)
      have fields: "number_of_arrays ?r' = number_of_arrays object"
        "max_array_length ?r' = max_array_length object"
        "next_free_array ?r' = next_free_array r0"
        "intersection_data ?r' = intersection_data r0"
        using inv by (simp_all add: slot_inv_def)
      have len': "arrays_lengths ?r' ! i \<le> max_array_length object"
        using il room by simp
      have dist': "distinct (array_content ?r' i)"
        using cont dist notin by simp
      have sub': "set (array_content ?r' i) \<subseteq> set (array_content object i) \<inter> set (take data_length dat)"
        using cont sub vx vq by simp
      have marks': "\<forall>u \<in> set (array_content ?r' i).
          unat u < length (?g [unat v := True]) \<and> ?g [unat v := True] ! unat u"
      proof
        fix u assume "u \<in> set (array_content ?r' i)"
        then consider "u = v" | "u \<in> set ?L" using cont by auto
        then show "unat u < length (?g [unat v := True]) \<and> ?g [unat v := True] ! unat u"
        proof cases
          case 1 then show ?thesis using inb by simp
        next
          case 2
          with marks have m: "unat u < length (multiple_guard st)" "multiple_guard st ! unat u" by auto
          have "unat u < length ?g"
            using m(1) grow_guard_length[of "multiple_guard st" fresh v] by simp
          moreover have "?g ! unat u" using m by (simp add: grow_guard_nth)
          ultimately show ?thesis using inb by (simp add: nth_list_update)
        qed
      qed
      have big': "multiple_guard_realloc_step \<le> length (?g [unat v := True])"
        using big grow_guard_length[of "multiple_guard st" fresh v] by simp
      have "slot_inv object dat data_length i r0 ?st'"
        unfolding slot_inv_def
        using wf' fields frame len' dist' sub' marks' big' by simp
      then show ?thesis using om by simp
    qed
  qed
qed

lemma for_each_error:
  assumes "for_each body xs s = Inl e" and "P s"
    and "\<And>x s s'. x \<in> set xs \<Longrightarrow> P s \<Longrightarrow> body x s = Inr s' \<Longrightarrow> P s'"
    and "\<And>x s e. x \<in> set xs \<Longrightarrow> P s \<Longrightarrow> body x s = Inl e \<Longrightarrow> E e"
  shows "E e"
  using assms
proof (induction xs arbitrary: s)
  case Nil then show ?case by simp
next
  case (Cons x xs)
  show ?case
  proof (cases "body x s")
    case (Inl e')
    then have "e' = e" using Cons.prems(1) by simp
    then show ?thesis using Cons.prems(4)[OF _ Cons.prems(2) Inl] by simp
  next
    case (Inr s1)
    then have r: "for_each body xs s1 = Inl e" using Cons.prems(1) by simp
    have p: "P s1" using Cons.prems(3)[OF _ Cons.prems(2) Inr] by simp
    show ?thesis
    proof (rule Cons.IH[OF r p])
      show "\<And>y s s'. y \<in> set xs \<Longrightarrow> P s \<Longrightarrow> body y s = Inr s' \<Longrightarrow> P s'"
        using Cons.prems(3) by auto
      show "\<And>y s e. y \<in> set xs \<Longrightarrow> P s \<Longrightarrow> body y s = Inl e \<Longrightarrow> E e"
        using Cons.prems(4) by auto
    qed
  qed
qed

lemma loop_i3_inv:
  assumes "loop_i3 fresh i dat data_length x st = Inr st'"
    and "slot_inv object dat data_length i r0 st"
    and "i < number_of_arrays object" and "data_length \<le> max_array_length object"
    and "x \<in> set (array_content object i)"
  shows "slot_inv object dat data_length i r0 st'"
proof (rule for_each_invariant[where P = "slot_inv object dat data_length i r0", OF assms(1)[unfolded loop_i3_def] assms(2)])
  fix v s s'
  assume v: "v \<in> set (take data_length dat)" and s: "slot_inv object dat data_length i r0 s"
    and b: "(if x = v then on_match fresh i v s else Inr s) = Inr s'"
  show "slot_inv object dat data_length i r0 s'"
  proof (cases "x = v")
    case True
    with on_match_cases[OF s assms(3,4) _ v, of fresh] assms(5) b show ?thesis by auto
  next
    case False
    with b s show ?thesis by simp
  qed
qed

lemma loop_i3_error:
  assumes "loop_i3 fresh i dat data_length x st = Inl e"
    and "slot_inv object dat data_length i r0 st"
    and "i < number_of_arrays object" and "data_length \<le> max_array_length object"
    and "x \<in> set (array_content object i)"
  shows "e = Guard_Index_Out_Of_Bounds \<and> x \<in> set (take data_length dat)
           \<and> multiple_guard_realloc_step \<le> unat x"
proof (rule for_each_error[where P = "slot_inv object dat data_length i r0"
      and E = "\<lambda>e. e = Guard_Index_Out_Of_Bounds \<and> x \<in> set (take data_length dat)
           \<and> multiple_guard_realloc_step \<le> unat x", OF assms(1)[unfolded loop_i3_def] assms(2)])
  fix v s s'
  assume v: "v \<in> set (take data_length dat)" and s: "slot_inv object dat data_length i r0 s"
    and b: "(if x = v then on_match fresh i v s else Inr s) = Inr s'"
  show "slot_inv object dat data_length i r0 s'"
  proof (cases "x = v")
    case True
    with on_match_cases[OF s assms(3,4) _ v, of fresh] assms(5) b show ?thesis by auto
  next
    case False
    with b s show ?thesis by simp
  qed
next
  fix v s e'
  assume v: "v \<in> set (take data_length dat)" and s: "slot_inv object dat data_length i r0 s"
    and b: "(if x = v then on_match fresh i v s else Inr s) = Inl e'"
  then have xv: "x = v" by (auto split: if_splits)
  have big: "multiple_guard_realloc_step \<le> length (multiple_guard s)"
    using s by (simp add: slot_inv_def)
  from on_match_cases[OF s assms(3,4) _ v, of fresh] assms(5) b xv
  have "e' = Guard_Index_Out_Of_Bounds" "length (grow_guard fresh (multiple_guard s) v) \<le> unat v"
    by auto
  then show "e' = Guard_Index_Out_Of_Bounds \<and> x \<in> set (take data_length dat)
           \<and> multiple_guard_realloc_step \<le> unat x"
    using xv v big grow_guard_length[of "multiple_guard s" fresh v] by simp
qed

lemma loop_i2_inv:
  assumes "loop_i2 fresh object dat data_length i st = Inr st'"
    and "slot_inv object dat data_length i r0 st"
    and "i < number_of_arrays object" and "data_length \<le> max_array_length object"
  shows "slot_inv object dat data_length i r0 st'"
proof (rule for_each_invariant[where P = "slot_inv object dat data_length i r0", OF assms(1)[unfolded loop_i2_def] assms(2)])
  fix x s s'
  assume "x \<in> set (take (arrays_lengths object ! i) (data object ! i))"
    "slot_inv object dat data_length i r0 s" "loop_i3 fresh i dat data_length x s = Inr s'"
  then show "slot_inv object dat data_length i r0 s'"
    using loop_i3_inv[of fresh i dat data_length x s s' object r0] assms(3,4)
    by (simp add: array_content_def)
qed

lemma loop_i2_error:
  assumes "loop_i2 fresh object dat data_length i st = Inl e"
    and "slot_inv object dat data_length i r0 st"
    and "i < number_of_arrays object" and "data_length \<le> max_array_length object"
  shows "e = Guard_Index_Out_Of_Bounds \<and>
         (\<exists>x \<in> set (array_content object i) \<inter> set (take data_length dat).
            multiple_guard_realloc_step \<le> unat x)"
proof (rule for_each_error[where P = "slot_inv object dat data_length i r0"
      and E = "\<lambda>e. e = Guard_Index_Out_Of_Bounds \<and>
         (\<exists>x \<in> set (array_content object i) \<inter> set (take data_length dat).
            multiple_guard_realloc_step \<le> unat x)", OF assms(1)[unfolded loop_i2_def] assms(2)])
  fix x s s'
  assume "x \<in> set (take (arrays_lengths object ! i) (data object ! i))"
    "slot_inv object dat data_length i r0 s" "loop_i3 fresh i dat data_length x s = Inr s'"
  then show "slot_inv object dat data_length i r0 s'"
    using loop_i3_inv[of fresh i dat data_length x s s' object r0] assms(3,4)
    by (simp add: array_content_def)
next
  fix x s e'
  assume "x \<in> set (take (arrays_lengths object ! i) (data object ! i))"
    "slot_inv object dat data_length i r0 s" "loop_i3 fresh i dat data_length x s = Inl e'"
  then show "e' = Guard_Index_Out_Of_Bounds \<and>
         (\<exists>x \<in> set (array_content object i) \<inter> set (take data_length dat).
            multiple_guard_realloc_step \<le> unat x)"
    using loop_i3_error[of fresh i dat data_length x s e' object r0] assms(3,4)
    by (auto simp: array_content_def)
qed

lemma for_each_upt_error:
  assumes "for_each body [a ..< b] s = Inl e" and "P a s" and "a \<le> b"
    and "\<And>i s s'. a \<le> i \<Longrightarrow> i < b \<Longrightarrow> P i s \<Longrightarrow> body i s = Inr s' \<Longrightarrow> P (Suc i) s'"
    and "\<And>i s e. a \<le> i \<Longrightarrow> i < b \<Longrightarrow> P i s \<Longrightarrow> body i s = Inl e \<Longrightarrow> E e"
  shows "E e"
  using assms
proof (induction "b - a" arbitrary: a s)
  case 0 then show ?case by simp
next
  case (Suc k)
  then have lt: "a < b" by simp
  then have unf: "[a ..< b] = a # [Suc a ..< b]" by (simp add: upt_conv_Cons)
  show ?case
  proof (cases "body a s")
    case (Inl e')
    then have "e' = e" using Suc.prems(1) unf by simp
    then show ?thesis using Suc.prems(5)[OF _ lt Suc.prems(2) Inl] by simp
  next
    case (Inr s1)
    then have r: "for_each body [Suc a ..< b] s1 = Inl e" using Suc.prems(1) unf by simp
    have p: "P (Suc a) s1" using Suc.prems(4)[OF _ lt Suc.prems(2) Inr] by simp
    have k: "k = b - Suc a" using Suc.hyps(2) by simp
    show ?thesis
    proof (rule Suc.hyps(1)[OF k r p])
      show "Suc a \<le> b" using lt by simp
      show "\<And>i s s'. Suc a \<le> i \<Longrightarrow> i < b \<Longrightarrow> P i s \<Longrightarrow> body i s = Inr s' \<Longrightarrow> P (Suc i) s'"
        using Suc.prems(4) Suc_leD by blast
      show "\<And>i s e. Suc a \<le> i \<Longrightarrow> i < b \<Longrightarrow> P i s \<Longrightarrow> body i s = Inl e \<Longrightarrow> E e"
        using Suc.prems(5) Suc_leD by blast
    qed
  qed
qed

lemma slot_inv_start:
  assumes "outer_inv object dat data_length k st" and "k < number_of_arrays object"
  shows "slot_inv object dat data_length k (intersection_result st) (memset_guard st)"
  using assms
  by (simp add: outer_inv_def slot_inv_def memset_guard_def array_content_def)

lemma array_content_cong:
  "data r ! j = data r0 ! j \<Longrightarrow> arrays_lengths r ! j = arrays_lengths r0 ! j
     \<Longrightarrow> array_content r j = array_content r0 j"
  by (simp add: array_content_def)

lemma outer_inv_step:
  assumes o: "outer_inv object dat data_length k st" and k: "k < number_of_arrays object"
    and s: "slot_inv object dat data_length k (intersection_result st) st'"
  shows "outer_inv object dat data_length (Suc k) st'"
proof -
  have frame: "\<And>j. j \<noteq> k \<Longrightarrow> data (intersection_result st') ! j = data (intersection_result st) ! j
                     \<and> arrays_lengths (intersection_result st') ! j = arrays_lengths (intersection_result st) ! j"
    using s by (simp add: slot_inv_def)
  have slots: "slot_good object dat data_length (intersection_result st') j \<and>
        (Suc k \<le> j \<longrightarrow> arrays_lengths (intersection_result st') ! j = 0)"
    if j: "j < number_of_arrays object" for j
  proof (cases "j = k")
    case True
    then show ?thesis using s by (simp add: slot_inv_def slot_good_def)
  next
    case False
    from o j have "slot_good object dat data_length (intersection_result st) j"
      "k \<le> j \<longrightarrow> arrays_lengths (intersection_result st) ! j = 0"
      by (simp_all add: outer_inv_def)
    then show ?thesis
      using frame[OF False] array_content_cong[of "intersection_result st'" j "intersection_result st"]
      by (simp add: slot_good_def)
  qed
  show ?thesis
    unfolding outer_inv_def
    using s o slots by (simp add: slot_inv_def outer_inv_def)
qed

lemma loop_i_inv:
  assumes run: "loop_i fresh object dat data_length st = Inr st'"
    and o: "outer_inv object dat data_length 0 st"
    and dl: "data_length \<le> max_array_length object"
  shows "outer_inv object dat data_length (number_of_arrays object) st'"
proof (rule for_each_upt_invariant[where P = "outer_inv object dat data_length",
         OF run[unfolded loop_i_def] o])
  show "0 \<le> number_of_arrays object" by simp
next
  fix i s s'
  assume i: "i < number_of_arrays object" and p: "outer_inv object dat data_length i s"
    and b: "loop_i2 fresh object dat data_length i (memset_guard s) = Inr s'"
  have "slot_inv object dat data_length i (intersection_result s) s'"
    by (rule loop_i2_inv[OF b slot_inv_start[OF p i] i dl])
  then show "outer_inv object dat data_length (Suc i) s'"
    by (rule outer_inv_step[OF p i])
qed

lemma loop_i_error:
  assumes run: "loop_i fresh object dat data_length st = Inl e"
    and o: "outer_inv object dat data_length 0 st"
    and dl: "data_length \<le> max_array_length object"
  shows "e = Guard_Index_Out_Of_Bounds \<and>
         (\<exists>i < number_of_arrays object.
            \<exists>x \<in> set (array_content object i) \<inter> set (take data_length dat).
              multiple_guard_realloc_step \<le> unat x)"
proof (rule for_each_upt_error[where P = "outer_inv object dat data_length"
         and E = "\<lambda>e. e = Guard_Index_Out_Of_Bounds \<and>
         (\<exists>i < number_of_arrays object.
            \<exists>x \<in> set (array_content object i) \<inter> set (take data_length dat).
              multiple_guard_realloc_step \<le> unat x)",
         OF run[unfolded loop_i_def] o])
  show "0 \<le> number_of_arrays object" by simp
next
  fix i s s'
  assume i: "i < number_of_arrays object" and p: "outer_inv object dat data_length i s"
    and b: "loop_i2 fresh object dat data_length i (memset_guard s) = Inr s'"
  have "slot_inv object dat data_length i (intersection_result s) s'"
    by (rule loop_i2_inv[OF b slot_inv_start[OF p i] i dl])
  then show "outer_inv object dat data_length (Suc i) s'"
    by (rule outer_inv_step[OF p i])
next
  fix i s e'
  assume i: "i < number_of_arrays object" and p: "outer_inv object dat data_length i s"
    and b: "loop_i2 fresh object dat data_length i (memset_guard s) = Inl e'"
  from loop_i2_error[OF b slot_inv_start[OF p i] i dl] i
  show "e' = Guard_Index_Out_Of_Bounds \<and>
         (\<exists>i < number_of_arrays object.
            \<exists>x \<in> set (array_content object i) \<inter> set (take data_length dat).
              multiple_guard_realloc_step \<le> unat x)"
    by blast
qed

lemma Create_well_formed:
  "Create_Document_Word_List n m = Inr c \<Longrightarrow> well_formed c"
  by (auto simp: Create_Document_Word_List_def well_formed_def split: if_splits)

lemma outer_inv_initial:
  assumes "Create_Document_Word_List (number_of_arrays object) (max_array_length object) = Inr c"
  shows "outer_inv object dat data_length 0
           \<lparr> multiple_guard = replicate multiple_guard_realloc_step False,
             intersection_result = c \<lparr> next_free_array := next_free_array object,
                                      intersection_data := True \<rparr> \<rparr>"
  using assms
  by (auto simp: Create_Document_Word_List_def outer_inv_def well_formed_def slot_good_def
        array_content_def split: if_splits)

lemma Intersect_Inr:
  assumes "Intersect_Data_With_Document_Word_List fresh object dat data_length mode = Inr r"
  shows "data_length \<noteq> 0 \<and> mode = INTERSECTION_MODE_DEFAULTS \<and>
         data_length \<le> max_array_length object \<and>
         (\<exists>st. outer_inv object dat data_length (number_of_arrays object) st \<and>
               r = intersection_result st)"
proof -
  from assms have dl: "data_length \<noteq> 0" and mode: "mode = INTERSECTION_MODE_DEFAULTS"
    and le: "data_length \<le> max_array_length object"
    by (auto simp: Intersect_Data_With_Document_Word_List_def split: if_splits)
  from assms dl mode le obtain c st where
    c: "Create_Document_Word_List (number_of_arrays object) (max_array_length object) = Inr c"
    and run: "loop_i fresh object dat data_length
           \<lparr> multiple_guard = replicate multiple_guard_realloc_step False,
             intersection_result = c \<lparr> next_free_array := next_free_array object,
                                      intersection_data := True \<rparr> \<rparr> = Inr st"
    and r: "r = intersection_result st"
    by (auto simp: Intersect_Data_With_Document_Word_List_def split: sum.splits)
  from loop_i_inv[OF run outer_inv_initial[OF c] le] r dl mode le show ?thesis by blast
qed

lemma Intersect_Inl:
  assumes "Intersect_Data_With_Document_Word_List fresh object dat data_length mode = Inl e"
  shows "e = Data_Length_Is_0 \<and> data_length = 0
       \<or> e = Invalid_Intersection_Mode \<and> data_length \<noteq> 0 \<and> mode \<noteq> INTERSECTION_MODE_DEFAULTS
       \<or> e = Data_Is_Too_Large \<and> mode = INTERSECTION_MODE_DEFAULTS
            \<and> max_array_length object < data_length
       \<or> e = Number_Of_Arrays_Is_0 \<and> mode = INTERSECTION_MODE_DEFAULTS
            \<and> number_of_arrays object = 0
       \<or> e = Guard_Index_Out_Of_Bounds \<and> mode = INTERSECTION_MODE_DEFAULTS \<and>
           (\<exists>i < number_of_arrays object.
              \<exists>x \<in> set (array_content object i) \<inter> set (take data_length dat).
                multiple_guard_realloc_step \<le> unat x)"
proof (cases "data_length \<noteq> 0 \<and> mode = INTERSECTION_MODE_DEFAULTS \<and>
         data_length \<le> max_array_length object")
  case False
  with assms show ?thesis
    by (auto simp: Intersect_Data_With_Document_Word_List_def split: if_splits)
next
  case ok: True
  show ?thesis
  proof (cases "Create_Document_Word_List (number_of_arrays object) (max_array_length object)
                  :: error + 'a word Document_Word_List")
    case (Inl e')
    with assms ok have "e = e'"
      by (simp add: Intersect_Data_With_Document_Word_List_def)
    moreover from Inl ok have "e' = Number_Of_Arrays_Is_0 \<and> number_of_arrays object = 0"
      by (auto simp: Create_Document_Word_List_def split: if_splits)
    ultimately show ?thesis using ok by simp
  next
    case (Inr c)
    with assms ok have run: "loop_i fresh object dat data_length
           \<lparr> multiple_guard = replicate multiple_guard_realloc_step False,
             intersection_result = c \<lparr> next_free_array := next_free_array object,
                                      intersection_data := True \<rparr> \<rparr> = Inl e"
      by (auto simp: Intersect_Data_With_Document_Word_List_def split: sum.splits)
    from loop_i_error[OF run outer_inv_initial[OF Inr]] ok show ?thesis by simp
  qed
qed

lemma Intersect_total:
  assumes "data_length \<noteq> 0" "data_length \<le> max_array_length object"
    "number_of_arrays object \<noteq> 0"
    "\<forall>v \<in> set (take data_length dat). unat v < multiple_guard_realloc_step"
  shows "\<exists>r. Intersect_Data_With_Document_Word_List fresh object dat data_length
               INTERSECTION_MODE_DEFAULTS = Inr r"
proof (cases "Intersect_Data_With_Document_Word_List fresh object dat data_length
               INTERSECTION_MODE_DEFAULTS")
  case (Inl e)
  from Intersect_Inl[OF Inl] assms show ?thesis by fastforce
next
  case (Inr r)
  then show ?thesis by simp
qed

lemma Intersect_slots:
  assumes "Intersect_Data_With_Document_Word_List fresh object dat data_length mode = Inr r"
    and "j < number_of_arrays object"
  shows "well_formed r" "slot_good object dat data_length r j"
    "length (array_content r j) = arrays_lengths r ! j"
proof -
  from Intersect_Inr[OF assms(1)] obtain st where
    o: "outer_inv object dat data_length (number_of_arrays object) st"
    and r: "r = intersection_result st" by blast
  show wf: "well_formed r" using o r by (simp add: outer_inv_def)
  show g: "slot_good object dat data_length r j" using o r assms(2) by (simp add: outer_inv_def)
  have "length (data r ! j) = max_array_length object"
    using o r assms(2) by (simp add: outer_inv_def well_formed_def)
  then show "length (array_content r j) = arrays_lengths r ! j"
    using g by (simp add: slot_good_def array_content_def)
qed

section \<open>The concrete containers, evaluated\<close>

lemma example_valid: "valid example_list"
  by code_simp

lemma example_intersect:
  "Intersect_Data_With_Document_Word_List fresh example_list [1, 2, 4] 3 INTERSECTION_MODE_DEFAULTS
     = Inr example_result"
  by code_simp

lemma shared_valid: "valid shared_list"
  by code_simp

lemma shared_intersect:
  "Intersect_Data_With_Document_Word_List fresh shared_list [2, 2, 7] 3 INTERSECTION_MODE_DEFAULTS
     = Inr shared_result"
  by code_simp

lemma sparse_valid: "valid sparse_list"
  by code_simp

lemma sparse_intersect:
  "Intersect_Data_With_Document_Word_List fresh sparse_list [9, 5] 2 INTERSECTION_MODE_DEFAULTS
     = Inr sparse_result"
  by code_simp

lemma boundary_valid: "valid boundary_list"
  by code_simp

lemma far_valid: "valid far_list"
  by code_simp

lemma far_list_eq:
  "far_list = \<lparr> data = [[2500]], arrays_lengths = [1], max_array_length = 1,
                number_of_arrays = 1, next_free_array = 1, intersection_data = False \<rparr>"
  by (simp add: far_list_def Create_Document_Word_List_def Append_Data_To_Document_Word_List_def
        memcpy_def)

lemma grown_valid: "valid grown_list"
  by code_simp

lemma grown_list_eq:
  "grown_list = \<lparr> data = [[1500, 1500]], arrays_lengths = [2], max_array_length = 2,
                 number_of_arrays = 1, next_free_array = 1, intersection_data = False \<rparr>"
  by (simp add: grown_list_def Create_Document_Word_List_def Append_Data_To_Document_Word_List_def
        memcpy_def numeral_2_eq_2)

lemma REALLOC_replicate:
  "k \<le> n \<Longrightarrow> REALLOC (\<lambda>_. False) (replicate k False) n = replicate n False"
  by (simp add: REALLOC_def map_replicate_const flip: replicate_add)

lemma grown_intersect:
  "Intersect_Data_With_Document_Word_List (\<lambda>_. False) grown_list [1500, 7] 2
     INTERSECTION_MODE_DEFAULTS = Inr grown_result"
proof -
  define c0 :: "32 word Document_Word_List" where
    "c0 = \<lparr> data = [[0, 0]], arrays_lengths = [0], max_array_length = 2,
            number_of_arrays = 1, next_free_array = 0, intersection_data = False \<rparr>"
  define r0 :: "32 word Document_Word_List" where
    "r0 = \<lparr> data = [[0, 0]], arrays_lengths = [0], max_array_length = 2,
            number_of_arrays = 1, next_free_array = 1, intersection_data = True \<rparr>"
  define g1 where "g1 = (replicate 2000 False) [1500 := True]"
  define st0 :: "32 word loop_state" where
    "st0 = \<lparr> multiple_guard = replicate 1000 False, intersection_result = r0 \<rparr>"
  define st1 :: "32 word loop_state" where
    "st1 = \<lparr> multiple_guard = g1, intersection_result = grown_result \<rparr>"
  have m1: "on_match (\<lambda>_. False) 0 (1500 :: 32 word) st0 = Inr st1"
    by (simp add: st0_def st1_def r0_def g1_def on_match_def grow_guard_def REALLOC_replicate
          multiple_guard_realloc_step_def grown_result_def Let_def)
  have m2: "on_match (\<lambda>_. False) 0 (1500 :: 32 word) st1 = Inr st1"
    by (simp add: st1_def g1_def on_match_def grow_guard_def Let_def)
  have l3a: "loop_i3 (\<lambda>_. False) 0 [1500, 7] 2 1500 st0 = Inr st1"
    by (simp add: loop_i3_def m1)
  have l3b: "loop_i3 (\<lambda>_. False) 0 [1500, 7] 2 1500 st1 = Inr st1"
    by (simp add: loop_i3_def m2)
  have row: "take (arrays_lengths grown_list ! 0) (data grown_list ! 0) = [1500, 1500]"
    by (simp add: grown_list_eq)
  have l2: "loop_i2 (\<lambda>_. False) grown_list [1500, 7] 2 0 st0 = Inr st1"
    unfolding loop_i2_def row by (simp add: l3a l3b)
  have create: "Create_Document_Word_List (number_of_arrays grown_list)
                  (max_array_length grown_list) = Inr c0"
    by (simp add: grown_list_eq Create_Document_Word_List_def c0_def numeral_2_eq_2)
  have init: "memset_guard
      \<lparr> multiple_guard = replicate multiple_guard_realloc_step False,
        intersection_result = c0 \<lparr> next_free_array := next_free_array grown_list,
                                  intersection_data := True \<rparr> \<rparr> = st0"
    by (simp add: memset_guard_def st0_def r0_def c0_def grown_list_eq
          multiple_guard_realloc_step_def)
  have rows: "[0 ..< number_of_arrays grown_list] = [0]"
    by (simp add: grown_list_eq)
  have pre: "(2::nat) \<noteq> 0" "2 \<le> max_array_length grown_list"
    by (simp_all add: grown_list_eq)
  have "loop_i (\<lambda>_. False) grown_list [1500, 7] 2
      \<lparr> multiple_guard = replicate multiple_guard_realloc_step False,
        intersection_result = c0 \<lparr> next_free_array := next_free_array grown_list,
                                  intersection_data := True \<rparr> \<rparr> = Inr st1"
    unfolding loop_i_def rows by (simp only: for_each.simps init l2 sum.case)
  then show ?thesis
    unfolding Intersect_Data_With_Document_Word_List_def
    using pre by (simp only: create sum.case if_False simp_thms) (simp add: st1_def)
qed

lemma for_each_single: "for_each body [x] s = body x s"
  by (simp split: sum.splits)

lemma on_match_out_of_bounds:
  assumes "unat v = length (multiple_guard st)
           \<or> length (multiple_guard st) + multiple_guard_realloc_step \<le> unat v"
  shows "on_match fresh i v st = Inl Guard_Index_Out_Of_Bounds"
  using assms
  by (auto simp: on_match_def grow_guard_def REALLOC_def Let_def multiple_guard_realloc_step_def)

section \<open>Shape of the result\<close>

text \<open>
  C5. For a valid container and a query of \<open>data_length\<close> elements, the container that
  an intersection call returns has the number of rows and the row capacity of the
  input, the cursor of the input, and its intersection flag set.
\<close>

theorem intersect_preserves_shape:
  assumes "valid object" and "data_length \<le> length dat"
    and "Intersect_Data_With_Document_Word_List fresh object dat data_length mode = Inr r"
  shows "number_of_arrays r = number_of_arrays object \<and>
         max_array_length r = max_array_length object \<and>
         next_free_array r = next_free_array object \<and>
         intersection_data r"
proof -
  from Intersect_Inr[OF assms(3)] obtain st where
    "outer_inv object dat data_length (number_of_arrays object) st" "r = intersection_result st"
    by blast
  then show ?thesis by (simp add: outer_inv_def)
qed

theorem intersect_preserves_shape_witness:
  "valid example_list \<and> 3 \<le> length [1, 2, 4 :: 32 word] \<and>
   Intersect_Data_With_Document_Word_List (\<lambda>_. False) example_list [1, 2, 4] 3
     INTERSECTION_MODE_DEFAULTS = Inr example_result \<and>
   number_of_arrays example_result = number_of_arrays example_list \<and>
   max_array_length example_result = max_array_length example_list \<and>
   next_free_array example_result = next_free_array example_list \<and>
   intersection_data example_result"
proof -
  have len: "3 \<le> length [1, 2, 4 :: 32 word]" by simp
  from intersect_preserves_shape[OF example_valid len example_intersect]
  show ?thesis using example_valid example_intersect by simp
qed

section \<open>No duplicates\<close>

text \<open>
  C4. For a valid container and query, no value occurs twice in the used part of any
  row of a returned result, however often it repeats in the row or in the query. The
  guard is cleared before each row, so a value may occur in the results of two rows:
  the witness has the value 2 in both.
\<close>

theorem intersect_no_duplicates:
  assumes "valid object" and "data_length \<le> length dat"
    and "Intersect_Data_With_Document_Word_List fresh object dat data_length mode = Inr r"
    and "i < number_of_arrays object"
  shows "distinct (array_content r i)"
  using Intersect_slots(2)[OF assms(3,4)] by (simp add: slot_good_def)

theorem intersect_no_duplicates_witness:
  "valid shared_list \<and> 3 \<le> length [2, 2, 7 :: 32 word] \<and>
   Intersect_Data_With_Document_Word_List (\<lambda>_. False) shared_list [2, 2, 7] 3
     INTERSECTION_MODE_DEFAULTS = Inr shared_result \<and>
   (0::nat) < number_of_arrays shared_list \<and> (1::nat) < number_of_arrays shared_list \<and>
   array_content shared_list 0 = [2, 1, 2] \<and>
   array_content shared_result 0 = [2] \<and> array_content shared_result 1 = [7, 2] \<and>
   distinct (array_content shared_result 0) \<and> distinct (array_content shared_result 1)"
proof -
  have len: "3 \<le> length [2, 2, 7 :: 32 word]" by simp
  have n0: "0 < number_of_arrays shared_list" and n1: "1 < number_of_arrays shared_list"
    by code_simp+
  have c: "array_content shared_list 0 = [2, 1, 2]" "array_content shared_result 0 = [2]"
    "array_content shared_result 1 = [7, 2]"
    by code_simp+
  from intersect_no_duplicates[OF shared_valid len shared_intersect n0]
    intersect_no_duplicates[OF shared_valid len shared_intersect n1]
  show ?thesis using shared_valid shared_intersect n0 n1 c len by simp
qed

section \<open>Lengths of the result rows\<close>

lemma distinct_length_le:
  assumes "distinct L" "set L \<subseteq> set Q"
  shows "length L \<le> length Q"
proof -
  have "card (set L) \<le> card (set Q)" by (rule card_mono) (use assms in auto)
  then show ?thesis using assms(1) card_length[of Q] by (simp add: distinct_card)
qed

lemma Intersect_length_bound:
  assumes "Intersect_Data_With_Document_Word_List fresh object dat data_length mode = Inr r"
    and "i < number_of_arrays object"
  shows "arrays_lengths r ! i \<le> min (arrays_lengths object ! i) data_length"
    and "arrays_lengths r ! i \<le> max_array_length object"
    and "arrays_lengths r ! i \<le> length (data r ! i)"
proof -
  note s = Intersect_slots[OF assms]
  have d: "distinct (array_content r i)"
    and sub: "set (array_content r i) \<subseteq> set (array_content object i) \<inter> set (take data_length dat)"
    and le: "arrays_lengths r ! i \<le> max_array_length object"
    using s(2) by (simp_all add: slot_good_def)
  have "length (array_content r i) \<le> length (array_content object i)"
    by (rule distinct_length_le[OF d]) (use sub in auto)
  moreover have "length (array_content r i) \<le> length (take data_length dat)"
    by (rule distinct_length_le[OF d]) (use sub in auto)
  ultimately show "arrays_lengths r ! i \<le> min (arrays_lengths object ! i) data_length"
    using s(3) by (simp add: array_content_def)
  show "arrays_lengths r ! i \<le> max_array_length object" by (rule le)
  from Intersect_Inr[OF assms(1)] obtain st where
    o: "outer_inv object dat data_length (number_of_arrays object) st"
    and r: "r = intersection_result st" by blast
  have "length (data r ! i) = max_array_length object"
    using o r assms(2) by (simp add: outer_inv_def well_formed_def)
  then show "arrays_lengths r ! i \<le> length (data r ! i)" using le by simp
qed

text \<open>
  C10. A call on a valid container with a non-empty query within the row capacity
  either returns or stops at a guard access that is not addressable, never at a write
  into the result. In every call that returns, that is, whenever every guard access
  was addressable, at once or after growth, the length of each result row is at most
  the length of the input row and at most the length of the query, hence at most
  \<open>max_array_length\<close>, which is the number of cells allocated for the row. In
  particular the call returns when every token of the query is below 1000, the first
  size of the guard.
\<close>

theorem intersect_lengths_bounded:
  "(valid object \<and> data_length \<le> length dat \<and> i < number_of_arrays object \<and>
    Intersect_Data_With_Document_Word_List fresh object dat data_length mode = Inr r \<longrightarrow>
      arrays_lengths r ! i \<le> min (arrays_lengths object ! i) data_length \<and>
      arrays_lengths r ! i \<le> max_array_length object \<and>
      arrays_lengths r ! i \<le> length (data r ! i)) \<and>
   (valid object \<and> data_length \<noteq> 0 \<and> data_length \<le> max_array_length object \<and>
    Intersect_Data_With_Document_Word_List fresh object dat data_length
      INTERSECTION_MODE_DEFAULTS = Inl e \<longrightarrow>
      e = Guard_Index_Out_Of_Bounds) \<and>
   (valid object \<and> data_length \<noteq> 0 \<and> data_length \<le> max_array_length object \<and>
    data_length \<le> length dat \<and>
    (\<forall>v \<in> set (take data_length dat). unat v < multiple_guard_realloc_step) \<longrightarrow>
      (\<exists>r'. Intersect_Data_With_Document_Word_List fresh object dat data_length
              INTERSECTION_MODE_DEFAULTS = Inr r'))"
proof (intro conjI impI)
  assume a: "valid object \<and> data_length \<le> length dat \<and> i < number_of_arrays object \<and>
    Intersect_Data_With_Document_Word_List fresh object dat data_length mode = Inr r"
  then have run: "Intersect_Data_With_Document_Word_List fresh object dat data_length mode = Inr r"
    and i: "i < number_of_arrays object" by simp_all
  show "arrays_lengths r ! i \<le> min (arrays_lengths object ! i) data_length"
    by (rule Intersect_length_bound(1)[OF run i])
  show "arrays_lengths r ! i \<le> max_array_length object"
    by (rule Intersect_length_bound(2)[OF run i])
  show "arrays_lengths r ! i \<le> length (data r ! i)"
    by (rule Intersect_length_bound(3)[OF run i])
next
  assume a: "valid object \<and> data_length \<noteq> 0 \<and> data_length \<le> max_array_length object \<and>
    Intersect_Data_With_Document_Word_List fresh object dat data_length
      INTERSECTION_MODE_DEFAULTS = Inl e"
  then have "number_of_arrays object \<noteq> 0" by (simp add: valid_def)
  with a Intersect_Inl[of fresh object dat data_length INTERSECTION_MODE_DEFAULTS e]
  show "e = Guard_Index_Out_Of_Bounds" by auto
next
  assume a: "valid object \<and> data_length \<noteq> 0 \<and> data_length \<le> max_array_length object \<and>
    data_length \<le> length dat \<and>
    (\<forall>v \<in> set (take data_length dat). unat v < multiple_guard_realloc_step)"
  then have "number_of_arrays object \<noteq> 0" by (simp add: valid_def)
  with a Intersect_total[of data_length object dat fresh]
  show "\<exists>r'. Intersect_Data_With_Document_Word_List fresh object dat data_length
              INTERSECTION_MODE_DEFAULTS = Inr r'" by blast
qed

theorem intersect_lengths_bounded_witness:
  "valid grown_list \<and> 2 \<le> length [1500, 7 :: 32 word] \<and> (0::nat) < number_of_arrays grown_list \<and>
   Intersect_Data_With_Document_Word_List (\<lambda>_. False) grown_list [1500, 7] 2
     INTERSECTION_MODE_DEFAULTS = Inr grown_result \<and>
   arrays_lengths grown_result ! 0 \<le> min (arrays_lengths grown_list ! 0) 2 \<and>
   arrays_lengths grown_result ! 0 \<le> max_array_length grown_list \<and>
   arrays_lengths grown_result ! 0 \<le> length (data grown_result ! 0) \<and>
   valid boundary_list \<and> (1::nat) \<noteq> 0 \<and> 1 \<le> max_array_length boundary_list \<and>
   Intersect_Data_With_Document_Word_List (\<lambda>_. False) boundary_list [1000] 1
     INTERSECTION_MODE_DEFAULTS = Inl Guard_Index_Out_Of_Bounds \<and>
   valid example_list \<and> (3::nat) \<noteq> 0 \<and> 3 \<le> max_array_length example_list \<and>
   3 \<le> length [1, 2, 4 :: 32 word] \<and>
   unat (1 :: 32 word) < multiple_guard_realloc_step \<and>
   unat (2 :: 32 word) < multiple_guard_realloc_step \<and>
   unat (4 :: 32 word) < multiple_guard_realloc_step \<and>
   Intersect_Data_With_Document_Word_List (\<lambda>_. False) example_list [1, 2, 4] 3
     INTERSECTION_MODE_DEFAULTS = Inr example_result"
proof -
  have h: "(0::nat) < number_of_arrays grown_list" "1 \<le> max_array_length boundary_list"
    "3 \<le> max_array_length example_list"
    by code_simp+
  have b: "Intersect_Data_With_Document_Word_List (\<lambda>_. False) boundary_list [1000] 1
     INTERSECTION_MODE_DEFAULTS = Inl Guard_Index_Out_Of_Bounds"
    by code_simp
  from intersect_lengths_bounded[of grown_list 2 "[1500, 7]" 0 "\<lambda>_. False"
      INTERSECTION_MODE_DEFAULTS grown_result]
  show ?thesis
    using h b grown_valid grown_intersect boundary_valid example_valid
      example_intersect[of "\<lambda>_. False"]
    by (simp add: multiple_guard_realloc_step_def)
qed

section \<open>Invariants\<close>

lemma Create_invariants:
  assumes "Create_Document_Word_List n m = Inr c"
  shows "invariants c" "next_free_array c = 0" "\<forall>l \<in> set (arrays_lengths c). l = 0"
  using assms
  by (auto simp: Create_Document_Word_List_def invariants_def split: if_splits)

lemma Append_unchanged_on_failure:
  "fst (Append_Data_To_Document_Word_List object new_data data_length) = Some e
     \<Longrightarrow> snd (Append_Data_To_Document_Word_List object new_data data_length) = object"
  by (auto simp: Append_Data_To_Document_Word_List_def split: if_splits)

lemma Append_well_formed:
  assumes "well_formed object" "data_length \<le> length new_data"
  shows "well_formed (snd (Append_Data_To_Document_Word_List object new_data data_length))"
proof (cases "fst (Append_Data_To_Document_Word_List object new_data data_length)")
  case (Some e)
  then show ?thesis using assms(1) by (simp add: Append_unchanged_on_failure)
next
  case None
  then have c: "data_length \<le> max_array_length object"
    "next_free_array object < number_of_arrays object"
    by (auto simp: Append_Data_To_Document_Word_List_def split: if_splits)
  have row: "length (data object ! next_free_array object) = max_array_length object"
    using assms(1) c by (simp add: well_formed_def)
  have "length (memcpy (data object ! next_free_array object) new_data data_length)
          = max_array_length object"
    using row c assms(2) by (simp add: memcpy_def)
  then show ?thesis
    using assms(1) c
    by (auto simp: Append_Data_To_Document_Word_List_def well_formed_def
          dest!: set_update_subset_insert[THEN subsetD])
qed

lemma set_drop_update_subset:
  "set (drop (Suc k) (xs [k := v])) \<subseteq> set (drop k xs)"
proof
  fix x assume "x \<in> set (drop (Suc k) (xs [k := v]))"
  then have "x \<in> set (drop (Suc k) xs)" by (simp add: drop_update_cancel)
  then show "x \<in> set (drop k xs)" by (metis Suc_n_not_le_n nat_le_linear set_drop_subset_set_drop subsetD)
qed

lemma Append_invariants:
  assumes "invariants object"
  shows "invariants (snd (Append_Data_To_Document_Word_List object new_data data_length))"
proof (cases "fst (Append_Data_To_Document_Word_List object new_data data_length)")
  case (Some e)
  then show ?thesis using assms by (simp add: Append_unchanged_on_failure)
next
  case None
  then have c: "data_length \<le> max_array_length object"
    "next_free_array object < number_of_arrays object" "data_length \<noteq> 0"
    by (auto simp: Append_Data_To_Document_Word_List_def split: if_splits)
  let ?k = "next_free_array object"
  have a: "\<forall>l \<in> set ((arrays_lengths object) [?k := data_length]). l \<le> max_array_length object"
    using assms c(1) by (auto simp: invariants_def dest!: set_update_subset_insert[THEN subsetD])
  have b: "\<forall>l \<in> set (drop (Suc ?k) ((arrays_lengths object) [?k := data_length])). l = 0"
    using assms set_drop_update_subset[of ?k "arrays_lengths object" data_length]
    by (auto simp: invariants_def)
  show ?thesis
    using a b c by (simp add: Append_Data_To_Document_Word_List_def invariants_def)
qed

lemma Intersect_invariants:
  assumes wf: "well_formed object" and inv: "invariants object"
    and run: "Intersect_Data_With_Document_Word_List fresh object dat data_length mode = Inr r"
  shows "invariants r"
proof -
  from Intersect_Inr[OF run] obtain st where
    o: "outer_inv object dat data_length (number_of_arrays object) st"
    and r: "r = intersection_result st" by blast
  have f: "number_of_arrays r = number_of_arrays object"
    "max_array_length r = max_array_length object"
    "next_free_array r = next_free_array object"
    "length (arrays_lengths r) = number_of_arrays object"
    using o r by (simp_all add: outer_inv_def well_formed_def)
  have lo: "length (arrays_lengths object) = number_of_arrays object"
    using wf by (simp add: well_formed_def)
  have a: "\<forall>l \<in> set (arrays_lengths r). l \<le> max_array_length r"
  proof
    fix l assume "l \<in> set (arrays_lengths r)"
    then obtain j where "j < number_of_arrays object" "l = arrays_lengths r ! j"
      using f(4) by (auto simp: in_set_conv_nth)
    then show "l \<le> max_array_length r"
      using Intersect_length_bound(2)[OF run] f(2) by simp
  qed
  have b: "\<forall>l \<in> set (drop (next_free_array r) (arrays_lengths r)). l = 0"
  proof
    fix l assume "l \<in> set (drop (next_free_array r) (arrays_lengths r))"
    then obtain j where j: "j < length (drop (next_free_array r) (arrays_lengths r))"
      and l: "l = drop (next_free_array r) (arrays_lengths r) ! j"
      by (auto simp: in_set_conv_nth)
    let ?k = "next_free_array object + j"
    have k: "?k < number_of_arrays object" using j f by simp
    have l': "l = arrays_lengths r ! ?k" using l j f by simp
    have "drop (next_free_array object) (arrays_lengths object) ! j \<in>
            set (drop (next_free_array object) (arrays_lengths object))"
      using k lo by (intro nth_mem) simp
    then have "arrays_lengths object ! ?k = 0"
      using inv k lo by (simp add: invariants_def)
    then show "l = 0" using Intersect_length_bound(1)[OF run k] l' by simp
  qed
  show ?thesis using a b f inv by (simp add: invariants_def)
qed

text \<open>
  C9. The three invariants (the cursor is at most the number of rows, every recorded
  length is at most the row capacity, every row from the cursor on has length 0) hold
  of a created container, with cursor 0 and all lengths 0; an append keeps them,
  whether it succeeds or fails; and the result of an intersection of a container that
  has them has them.
\<close>

theorem operations_preserve_invariants:
  "(Create_Document_Word_List n m = Inr (c :: 'w::len word Document_Word_List) \<longrightarrow>
      invariants c \<and> next_free_array c = 0 \<and> (\<forall>l \<in> set (arrays_lengths c). l = 0)) \<and>
   (invariants (object :: 'w word Document_Word_List) \<longrightarrow>
      invariants (snd (Append_Data_To_Document_Word_List object new_data new_length))) \<and>
   (well_formed source \<and> invariants source \<and>
    Intersect_Data_With_Document_Word_List fresh source dat data_length mode = Inr r \<longrightarrow>
      invariants (r :: 'w word Document_Word_List))"
  using Create_invariants[of n m c] Append_invariants[of object new_data new_length]
    Intersect_invariants[of source fresh dat data_length mode r]
  by blast

theorem operations_preserve_invariants_witness:
  "Create_Document_Word_List 2 5 = Inr created_list \<and>
   invariants created_list \<and> next_free_array created_list = 0 \<and>
   arrays_lengths created_list = [0, 0] \<and>
   fst (Append_Data_To_Document_Word_List created_list [1, 2, 3, 2, 1] 5) = None \<and>
   invariants (snd (Append_Data_To_Document_Word_List created_list [1, 2, 3, 2, 1] 5)) \<and>
   well_formed example_list \<and> invariants example_list \<and>
   Intersect_Data_With_Document_Word_List (\<lambda>_. False) example_list [1, 2, 4] 3
     INTERSECTION_MODE_DEFAULTS = Inr example_result \<and>
   invariants example_result"
proof -
  have c: "Create_Document_Word_List 2 5 = Inr created_list"
    and a: "fst (Append_Data_To_Document_Word_List created_list [1, 2, 3, 2, 1] 5) = None"
    and l: "arrays_lengths created_list = [0, 0]"
    by code_simp+
  have v: "well_formed example_list" "invariants example_list"
    using example_valid by (simp_all add: valid_def)
  from operations_preserve_invariants[of 2 5 created_list created_list "[1, 2, 3, 2, 1]" 5
      example_list "\<lambda>_. False" "[1, 2, 4]" 3 INTERSECTION_MODE_DEFAULTS example_result]
  show ?thesis using c a l v example_intersect[of "\<lambda>_. False"] by simp
qed

section \<open>Rejected arguments\<close>

text \<open>
  C8. A call with a mode other than \<^verbatim>\<open>INTERSECTION_MODE_DEFAULTS\<close>, the only supported
  one, fails with an invalid-argument failure and returns no result; a call with the
  supported mode never fails the mode assertion.
\<close>

theorem intersect_rejects_unsupported_mode:
  "(mode \<noteq> INTERSECTION_MODE_DEFAULTS \<longrightarrow>
      (\<exists>e. Intersect_Data_With_Document_Word_List fresh object dat data_length mode = Inl e \<and>
           kind_of e = InvalidArgument)) \<and>
   Intersect_Data_With_Document_Word_List fresh object dat data_length INTERSECTION_MODE_DEFAULTS
     \<noteq> Inl Invalid_Intersection_Mode"
proof
  show "mode \<noteq> INTERSECTION_MODE_DEFAULTS \<longrightarrow>
      (\<exists>e. Intersect_Data_With_Document_Word_List fresh object dat data_length mode = Inl e \<and>
           kind_of e = InvalidArgument)"
    by (simp add: Intersect_Data_With_Document_Word_List_def)
  show "Intersect_Data_With_Document_Word_List fresh object dat data_length
          INTERSECTION_MODE_DEFAULTS \<noteq> Inl Invalid_Intersection_Mode"
    using Intersect_Inl[of fresh object dat data_length INTERSECTION_MODE_DEFAULTS
        Invalid_Intersection_Mode]
    by auto
qed

theorem intersect_rejects_unsupported_mode_witness:
  "INTERSECTION_MODE_OTHER 1 \<noteq> INTERSECTION_MODE_DEFAULTS \<and>
   Intersect_Data_With_Document_Word_List (\<lambda>_. False) example_list [1, 2, 4] 3
     (INTERSECTION_MODE_OTHER 1) = Inl Invalid_Intersection_Mode \<and>
   kind_of Invalid_Intersection_Mode = InvalidArgument \<and>
   Intersect_Data_With_Document_Word_List (\<lambda>_. False) example_list [1, 2, 4] 3
     INTERSECTION_MODE_DEFAULTS \<noteq> Inl Invalid_Intersection_Mode"
  using intersect_rejects_unsupported_mode[of "INTERSECTION_MODE_OTHER 1" "\<lambda>_. False"
      example_list "[1, 2, 4]" 3]
  by (simp add: Intersect_Data_With_Document_Word_List_def)

section \<open>Failures of an append\<close>

text \<open>
  C6, as the claim states it, is false: on a full container an append of a length above
  the row capacity fails the length assertion, not the one for a full container.
\<close>

theorem append_full_counterexample:
  "next_free_array boundary_list = number_of_arrays boundary_list \<and>
   max_array_length boundary_list < 2 \<and>
   fst (Append_Data_To_Document_Word_List boundary_list [5, 6] 2) = Some New_Data_Is_Too_Large \<and>
   kind_of New_Data_Is_Too_Large \<noteq> ContainerFull"
  by code_simp

text \<open>
  C6, amended. An append of a length above the row capacity fails as capacity exceeded;
  an append of a length that is positive and within the row capacity, on a container
  whose cursor has reached the number of rows, fails as container full; and after any
  failed append the container is the one before the call.
\<close>

theorem append_failures_leave_container:
  "(max_array_length object < data_length \<longrightarrow>
      Append_Data_To_Document_Word_List object new_data data_length
        = (Some New_Data_Is_Too_Large, object) \<and>
      kind_of New_Data_Is_Too_Large = CapacityExceeded) \<and>
   (data_length \<noteq> 0 \<and> data_length \<le> max_array_length object \<and>
    next_free_array object = number_of_arrays object \<longrightarrow>
      Append_Data_To_Document_Word_List object new_data data_length
        = (Some All_Arrays_Are_In_Use, object) \<and>
      kind_of All_Arrays_Are_In_Use = ContainerFull) \<and>
   (fst (Append_Data_To_Document_Word_List object new_data data_length) \<noteq> None \<longrightarrow>
      snd (Append_Data_To_Document_Word_List object new_data data_length) = object)"
  by (auto simp: Append_Data_To_Document_Word_List_def)

theorem append_failures_leave_container_witness:
  "max_array_length boundary_list < 2 \<and>
   Append_Data_To_Document_Word_List boundary_list [5, 6] 2
     = (Some New_Data_Is_Too_Large, boundary_list) \<and>
   (1::nat) \<noteq> 0 \<and> 1 \<le> max_array_length boundary_list \<and>
   next_free_array boundary_list = number_of_arrays boundary_list \<and>
   Append_Data_To_Document_Word_List boundary_list [5] 1
     = (Some All_Arrays_Are_In_Use, boundary_list) \<and>
   fst (Append_Data_To_Document_Word_List boundary_list [5] 1) \<noteq> None \<and>
   snd (Append_Data_To_Document_Word_List boundary_list [5] 1) = boundary_list"
proof -
  have h: "max_array_length boundary_list < 2" "1 \<le> max_array_length boundary_list"
    "next_free_array boundary_list = number_of_arrays boundary_list"
    by code_simp+
  from append_failures_leave_container[of boundary_list 2 "[5, 6]"]
    append_failures_leave_container[of boundary_list 1 "[5]"] h
  show ?thesis by simp
qed

section \<open>Empty inputs\<close>

text \<open>
  C7, as the claim states it, is false for the query: a call with \<open>data_length = 0\<close>
  fails the assertion \<^verbatim>\<open>data_length != 0\<close> and returns no result.
\<close>

theorem intersect_empty_query_counterexample:
  "Intersect_Data_With_Document_Word_List (\<lambda>_. False) example_list [] 0
     INTERSECTION_MODE_DEFAULTS = Inl Data_Length_Is_0"
  by (simp add: Intersect_Data_With_Document_Word_List_def)

text \<open>
  C7, amended. A query of length 0 is rejected as an invalid argument. An input row of
  length 0 gives a result row of length 0 in every call that returns, and is not what
  makes a call fail: a call with a non-empty query within the row capacity, on a valid
  container, fails only at a non-empty row that shares a token of at least 1000 with
  the query.
\<close>

theorem intersect_empty_row:
  "Intersect_Data_With_Document_Word_List fresh object dat 0 mode = Inl Data_Length_Is_0 \<and>
   kind_of Data_Length_Is_0 = InvalidArgument \<and>
   (valid object \<and> i < number_of_arrays object \<and> arrays_lengths object ! i = 0 \<and>
    Intersect_Data_With_Document_Word_List fresh object dat data_length mode = Inr r \<longrightarrow>
      arrays_lengths r ! i = 0) \<and>
   (valid object \<and> data_length \<noteq> 0 \<and> data_length \<le> max_array_length object \<and>
    Intersect_Data_With_Document_Word_List fresh object dat data_length
      INTERSECTION_MODE_DEFAULTS = Inl e \<longrightarrow>
      (\<exists>j < number_of_arrays object. arrays_lengths object ! j \<noteq> 0 \<and>
         (\<exists>x \<in> set (array_content object j) \<inter> set (take data_length dat).
            multiple_guard_realloc_step \<le> unat x)))"
proof (intro conjI impI)
  show "Intersect_Data_With_Document_Word_List fresh object dat 0 mode = Inl Data_Length_Is_0"
    by (simp add: Intersect_Data_With_Document_Word_List_def)
  show "kind_of Data_Length_Is_0 = InvalidArgument" by simp
next
  assume a: "valid object \<and> i < number_of_arrays object \<and> arrays_lengths object ! i = 0 \<and>
    Intersect_Data_With_Document_Word_List fresh object dat data_length mode = Inr r"
  then show "arrays_lengths r ! i = 0"
    using Intersect_length_bound(1)[of fresh object dat data_length mode r i] by simp
next
  assume a: "valid object \<and> data_length \<noteq> 0 \<and> data_length \<le> max_array_length object \<and>
    Intersect_Data_With_Document_Word_List fresh object dat data_length
      INTERSECTION_MODE_DEFAULTS = Inl e"
  then have "number_of_arrays object \<noteq> 0" by (simp add: valid_def)
  with a Intersect_Inl[of fresh object dat data_length INTERSECTION_MODE_DEFAULTS e]
  obtain j x where j: "j < number_of_arrays object"
    and x: "x \<in> set (array_content object j) \<inter> set (take data_length dat)"
      "multiple_guard_realloc_step \<le> unat x"
    by auto
  have "arrays_lengths object ! j \<noteq> 0"
  proof
    assume "arrays_lengths object ! j = 0"
    then have "array_content object j = []" by (simp add: array_content_def)
    with x(1) show False by simp
  qed
  with j x show "\<exists>j < number_of_arrays object. arrays_lengths object ! j \<noteq> 0 \<and>
         (\<exists>x \<in> set (array_content object j) \<inter> set (take data_length dat).
            multiple_guard_realloc_step \<le> unat x)"
    by blast
qed

theorem intersect_empty_row_witness:
  "valid sparse_list \<and> (2::nat) < number_of_arrays sparse_list \<and>
   arrays_lengths sparse_list ! 2 = 0 \<and>
   Intersect_Data_With_Document_Word_List (\<lambda>_. False) sparse_list [9, 5] 2
     INTERSECTION_MODE_DEFAULTS = Inr sparse_result \<and>
   arrays_lengths sparse_result ! 2 = 0 \<and>
   valid boundary_list \<and> (1::nat) \<noteq> 0 \<and> 1 \<le> max_array_length boundary_list \<and>
   Intersect_Data_With_Document_Word_List (\<lambda>_. False) boundary_list [1000] 1
     INTERSECTION_MODE_DEFAULTS = Inl Guard_Index_Out_Of_Bounds \<and>
   (0::nat) < number_of_arrays boundary_list \<and> arrays_lengths boundary_list ! 0 \<noteq> 0 \<and>
   (1000 :: 32 word) \<in> set (array_content boundary_list 0) \<inter> set (take 1 [1000]) \<and>
   multiple_guard_realloc_step \<le> unat (1000 :: 32 word)"
proof -
  have h: "(2::nat) < number_of_arrays sparse_list" "arrays_lengths sparse_list ! 2 = 0"
    "1 \<le> max_array_length boundary_list"
    "(0::nat) < number_of_arrays boundary_list" "arrays_lengths boundary_list ! 0 \<noteq> 0"
    "(1000 :: 32 word) \<in> set (array_content boundary_list 0) \<inter> set (take 1 [1000])"
    "multiple_guard_realloc_step \<le> unat (1000 :: 32 word)"
    by code_simp+
  have b: "Intersect_Data_With_Document_Word_List (\<lambda>_. False) boundary_list [1000] 1
     INTERSECTION_MODE_DEFAULTS = Inl Guard_Index_Out_Of_Bounds"
    by code_simp
  from intersect_empty_row[of "\<lambda>_. False" sparse_list "[9, 5]" INTERSECTION_MODE_DEFAULTS 2 2
      sparse_result]
  show ?thesis using h b sparse_valid boundary_valid sparse_intersect[of "\<lambda>_. False"] by simp
qed

section \<open>Results that are the whole intersection\<close>

text \<open>
  When the cells the guard grows by read as unmarked, a marked cell always belongs to
  a value already in the row, and a call that returns has, in every row, exactly the
  values the row shares with the query. When every token of the query is below 1000
  the guard never grows and the call returns.
\<close>

lemma for_each_reaches:
  assumes "for_each body xs s = Inr s'" and "x \<in> set xs" and "P s"
    and "\<And>y s s'. y \<in> set xs \<Longrightarrow> P s \<Longrightarrow> body y s = Inr s' \<Longrightarrow> P s' \<and> (A s \<longrightarrow> A s')"
    and "\<And>s s'. P s \<Longrightarrow> body x s = Inr s' \<Longrightarrow> A s'"
  shows "A s'"
proof -
  have "P s' \<and> ((A s \<or> x \<in> set xs) \<longrightarrow> A s')"
    using assms(1,3,4,5)
  proof (induction xs arbitrary: s)
    case Nil
    then show ?case by simp
  next
    case (Cons y ys)
    from Cons.prems(1) obtain s1 where b: "body y s = Inr s1" and r: "for_each body ys s1 = Inr s'"
      by (auto split: sum.splits)
    have p1: "P s1" "A s \<longrightarrow> A s1" using Cons.prems(3)[OF _ Cons.prems(2) b] by simp_all
    have a1: "x = y \<longrightarrow> A s1" using Cons.prems(4)[OF Cons.prems(2)] b by auto
    have ih: "P s' \<and> ((A s1 \<or> x \<in> set ys) \<longrightarrow> A s')"
    proof (rule Cons.IH[OF r p1(1)])
      show "\<And>z s s'. z \<in> set ys \<Longrightarrow> P s \<Longrightarrow> body z s = Inr s' \<Longrightarrow> P s' \<and> (A s \<longrightarrow> A s')"
        using Cons.prems(3) by auto
      show "\<And>s s'. P s \<Longrightarrow> body x s = Inr s' \<Longrightarrow> A s'"
        using Cons.prems(4) by auto
    qed
    then show ?case using p1 a1 by auto
  qed
  then show ?thesis using assms(2) by simp
qed

lemma grow_guard_new_cells:
  assumes "(\<forall>k. \<not> fresh k) \<or> unat v < multiple_guard_realloc_step"
    and "multiple_guard_realloc_step \<le> length g"
    and "u < length (grow_guard fresh g v)" and "length g \<le> u"
  shows "\<not> grow_guard fresh g v ! u"
proof (cases "unat v > length g")
  case True
  then have f: "\<forall>k. \<not> fresh k" using assms(1,2) by auto
  have "grow_guard fresh g v ! u = fresh u"
    using True assms(3,4) by (simp add: grow_guard_def REALLOC_def nth_append)
  then show ?thesis using f by simp
next
  case False
  then show ?thesis using assms(3,4) by (simp add: grow_guard_def)
qed

lemma on_match_exact:
  assumes inv: "slot_inv object dat data_length i r0 st"
    and ex: "guard_exact i st"
    and i: "i < number_of_arrays object"
    and dl: "data_length \<le> max_array_length object"
    and vx: "v \<in> set (array_content object i)"
    and vq: "v \<in> set (take data_length dat)"
    and clean: "(\<forall>k. \<not> fresh k) \<or> unat v < multiple_guard_realloc_step"
    and om: "on_match fresh i v st = Inr st'"
  shows "slot_inv object dat data_length i r0 st' \<and>
           guard_exact i st' \<and> v \<in> set (array_content (intersection_result st') i) \<and>
           set (array_content (intersection_result st) i)
             \<subseteq> set (array_content (intersection_result st') i)"
proof -
  let ?g = "grow_guard fresh (multiple_guard st) v"
  let ?r = "intersection_result st"
  let ?n = "arrays_lengths ?r ! i"
  have big: "multiple_guard_realloc_step \<le> length (multiple_guard st)"
    using inv by (simp add: slot_inv_def)
  have inb: "unat v < length ?g"
    using om by (auto simp: on_match_def Let_def split: if_splits)
  from on_match_cases[OF inv i dl vx vq, of fresh] om
  have inv': "slot_inv object dat data_length i r0 st'" by auto
  have exg: "u \<in> unat ` set (array_content ?r i)" if "u < length ?g" "?g ! u" for u
  proof (cases "u < length (multiple_guard st)")
    case True
    then have "multiple_guard st ! u" using that by (simp add: grow_guard_nth)
    with ex True show ?thesis by (simp add: guard_exact_def)
  next
    case False
    then have "\<not> ?g ! u" using grow_guard_new_cells[OF clean big that(1)] by simp
    with that show ?thesis by simp
  qed
  have wf: "well_formed ?r" and na: "number_of_arrays ?r = number_of_arrays object"
    using inv by (simp_all add: slot_inv_def)
  have il: "i < length (data ?r)" "i < length (arrays_lengths ?r)"
    using wf i na by (simp_all add: well_formed_def)
  show ?thesis
  proof (cases "?g ! unat v")
    case True
    then have st': "st' = st \<lparr> multiple_guard := ?g \<rparr>"
      using om inb by (simp add: on_match_def Let_def)
    from exg[OF inb True] obtain w where "w \<in> set (array_content ?r i)" "unat w = unat v"
      by auto
    then have vin: "v \<in> set (array_content ?r i)" using unat_same[of w v] by simp
    have "guard_exact i st'" unfolding guard_exact_def st' using exg by simp
    then show ?thesis using inv' vin st' by simp
  next
    case False
    let ?r' = "?r \<lparr> data := (data ?r) [i := (data ?r ! i) [?n := v]],
                   arrays_lengths := (arrays_lengths ?r) [i := ?n + 1] \<rparr>"
    from om False inb have room: "\<not> length (data ?r ! i) \<le> ?n"
      by (auto simp: on_match_def Let_def split: if_splits)
    then have st': "st' = \<lparr> multiple_guard = ?g [unat v := True], intersection_result = ?r' \<rparr>"
      using om False inb by (simp add: on_match_def Let_def)
    have cont: "array_content ?r' i = array_content ?r i @ [v]"
      using il room by (simp add: array_content_def take_Suc_update)
    have ge: "guard_exact i st'"
      unfolding guard_exact_def st'
      using exg inb cont by (auto simp: nth_list_update)
    have c': "array_content (intersection_result st') i = array_content ?r i @ [v]"
      using cont st' by simp
    have "v \<in> set (array_content (intersection_result st') i)"
      "set (array_content ?r i) \<subseteq> set (array_content (intersection_result st') i)"
      unfolding c' by auto
    then show ?thesis using inv' ge by blast
  qed
qed

lemma loop_i3_exact:
  assumes run: "loop_i3 fresh i dat data_length x st = Inr st'"
    and inv: "slot_inv object dat data_length i r0 st" and ex: "guard_exact i st"
    and i: "i < number_of_arrays object" and dl: "data_length \<le> max_array_length object"
    and x: "x \<in> set (array_content object i)"
    and clean: "(\<forall>k. \<not> fresh k) \<or>
                (\<forall>v \<in> set (take data_length dat). unat v < multiple_guard_realloc_step)"
  shows "slot_inv object dat data_length i r0 st'" "guard_exact i st'"
    "set (array_content (intersection_result st) i)
       \<subseteq> set (array_content (intersection_result st') i)"
    "x \<in> set (take data_length dat) \<longrightarrow> x \<in> set (array_content (intersection_result st') i)"
proof -
  let ?P = "\<lambda>s. slot_inv object dat data_length i r0 s \<and> guard_exact i s \<and>
              set (array_content (intersection_result st) i)
                \<subseteq> set (array_content (intersection_result s) i)"
  let ?body = "\<lambda>v s. if x = v then on_match fresh i v s else Inr s"
  have step: "?P s' \<and> (x = v \<longrightarrow> x \<in> set (array_content (intersection_result s') i)) \<and>
              set (array_content (intersection_result s) i)
                \<subseteq> set (array_content (intersection_result s') i)"
    if "v \<in> set (take data_length dat)" "?P s" "?body v s = Inr s'" for v s s'
  proof (cases "x = v")
    case True
    have c: "(\<forall>k. \<not> fresh k) \<or> unat v < multiple_guard_realloc_step"
      using clean that(1) by blast
    from on_match_exact[of object dat data_length i r0 s v fresh s'] that True i dl x c
    show ?thesis by auto
  next
    case False
    with that show ?thesis by simp
  qed
  have p0: "?P st" using inv ex by simp
  have "?P st'"
    by (rule for_each_invariant[where P = ?P, OF run[unfolded loop_i3_def] p0]) (use step in blast)
  then show "slot_inv object dat data_length i r0 st'" "guard_exact i st'"
    "set (array_content (intersection_result st) i)
       \<subseteq> set (array_content (intersection_result st') i)"
    by simp_all
  show "x \<in> set (take data_length dat) \<longrightarrow> x \<in> set (array_content (intersection_result st') i)"
  proof
    assume xq: "x \<in> set (take data_length dat)"
    show "x \<in> set (array_content (intersection_result st') i)"
    proof (rule for_each_reaches[where P = ?P
          and A = "\<lambda>s. x \<in> set (array_content (intersection_result s) i)",
          OF run[unfolded loop_i3_def] xq p0])
      fix y s s'
      assume "y \<in> set (take data_length dat)" "?P s" "?body y s = Inr s'"
      from step[OF this]
      show "?P s' \<and> (x \<in> set (array_content (intersection_result s) i)
                      \<longrightarrow> x \<in> set (array_content (intersection_result s') i))"
        by blast
    next
      fix s s'
      assume "?P s" "?body x s = Inr s'"
      from step[OF xq this] show "x \<in> set (array_content (intersection_result s') i)" by simp
    qed
  qed
qed

lemma loop_i2_exact:
  assumes run: "loop_i2 fresh object dat data_length i st = Inr st'"
    and inv: "slot_inv object dat data_length i r0 st" and ex: "guard_exact i st"
    and i: "i < number_of_arrays object" and dl: "data_length \<le> max_array_length object"
    and clean: "(\<forall>k. \<not> fresh k) \<or>
                (\<forall>v \<in> set (take data_length dat). unat v < multiple_guard_realloc_step)"
  shows "set (array_content (intersection_result st') i)
           = set (array_content object i) \<inter> set (take data_length dat)"
proof -
  let ?P = "\<lambda>s. slot_inv object dat data_length i r0 s \<and> guard_exact i s"
  have p0: "?P st" using inv ex by simp
  have xs: "set (take (arrays_lengths object ! i) (data object ! i)) = set (array_content object i)"
    by (simp add: array_content_def)
  have sub: "set (array_content (intersection_result st') i)
               \<subseteq> set (array_content object i) \<inter> set (take data_length dat)"
    using loop_i2_inv[OF run inv i dl] by (simp add: slot_inv_def)
  have "x \<in> set (array_content (intersection_result st') i)"
    if x: "x \<in> set (array_content object i)" and xq: "x \<in> set (take data_length dat)" for x
  proof (rule for_each_reaches[where P = ?P
        and A = "\<lambda>s. x \<in> set (array_content (intersection_result s) i)",
        OF run[unfolded loop_i2_def] _ p0])
    show "x \<in> set (take (arrays_lengths object ! i) (data object ! i))" using x xs by simp
  next
    fix y s s'
    assume y: "y \<in> set (take (arrays_lengths object ! i) (data object ! i))" and p: "?P s"
      and b: "loop_i3 fresh i dat data_length y s = Inr s'"
    from y xs have y': "y \<in> set (array_content object i)" by simp
    from loop_i3_exact[OF b _ _ i dl y' clean, of r0] p
    show "?P s' \<and> (x \<in> set (array_content (intersection_result s) i)
                    \<longrightarrow> x \<in> set (array_content (intersection_result s') i))"
      by blast
  next
    fix s s'
    assume p: "?P s" and b: "loop_i3 fresh i dat data_length x s = Inr s'"
    from loop_i3_exact(4)[OF b _ _ i dl x clean, of r0] p xq
    show "x \<in> set (array_content (intersection_result s') i)" by blast
  qed
  with sub show ?thesis by blast
qed

lemma guard_exact_memset: "guard_exact i (memset_guard st)"
  by (simp add: guard_exact_def memset_guard_def)

lemma loop_i_exact:
  assumes run: "loop_i fresh object dat data_length st = Inr st'"
    and o: "outer_inv object dat data_length 0 st"
    and dl: "data_length \<le> max_array_length object"
    and clean: "(\<forall>k. \<not> fresh k) \<or>
                (\<forall>v \<in> set (take data_length dat). unat v < multiple_guard_realloc_step)"
  shows "complete_upto object dat data_length (number_of_arrays object) st'"
proof (rule for_each_upt_invariant[where P = "complete_upto object dat data_length",
         OF run[unfolded loop_i_def]])
  show "complete_upto object dat data_length 0 st" using o by (simp add: complete_upto_def)
  show "0 \<le> number_of_arrays object" by simp
next
  fix i s s'
  assume i: "i < number_of_arrays object" and p: "complete_upto object dat data_length i s"
    and b: "loop_i2 fresh object dat data_length i (memset_guard s) = Inr s'"
  from p have po: "outer_inv object dat data_length i s" by (simp add: complete_upto_def)
  note start = slot_inv_start[OF po i]
  have sl: "slot_inv object dat data_length i (intersection_result s) s'"
    by (rule loop_i2_inv[OF b start i dl])
  have o': "outer_inv object dat data_length (Suc i) s'"
    by (rule outer_inv_step[OF po i sl])
  have this_row: "set (array_content (intersection_result s') i)
           = set (array_content object i) \<inter> set (take data_length dat)"
    by (rule loop_i2_exact[OF b start guard_exact_memset i dl clean])
  have other: "array_content (intersection_result s') j = array_content (intersection_result s) j"
    if "j \<noteq> i" for j
    using sl that by (simp add: slot_inv_def array_content_def)
  have "set (array_content (intersection_result s') j)
          = set (array_content object j) \<inter> set (take data_length dat)"
    if "j < Suc i" "j < number_of_arrays object" for j
  proof (cases "j = i")
    case True
    then show ?thesis using this_row by simp
  next
    case False
    then have "j < i" using that by simp
    then show ?thesis using p that other[OF False] by (simp add: complete_upto_def)
  qed
  then show "complete_upto object dat data_length (Suc i) s'"
    using o' by (simp add: complete_upto_def)
qed

lemma Intersect_exact:
  assumes r: "Intersect_Data_With_Document_Word_List fresh object dat data_length mode = Inr r"
    and clean: "(\<forall>k. \<not> fresh k) \<or>
                (\<forall>v \<in> set (take data_length dat). unat v < multiple_guard_realloc_step)"
    and i: "i < number_of_arrays object"
  shows "set (array_content r i) = set (array_content object i) \<inter> set (take data_length dat)"
proof -
  from r have le: "data_length \<le> max_array_length object"
    by (auto simp: Intersect_Data_With_Document_Word_List_def split: if_splits)
  from r obtain c st where
    c: "Create_Document_Word_List (number_of_arrays object) (max_array_length object) = Inr c"
    and run: "loop_i fresh object dat data_length
           \<lparr> multiple_guard = replicate multiple_guard_realloc_step False,
             intersection_result = c \<lparr> next_free_array := next_free_array object,
                                      intersection_data := True \<rparr> \<rparr> = Inr st"
    and rs: "r = intersection_result st"
    by (auto simp: Intersect_Data_With_Document_Word_List_def split: sum.splits if_splits)
  from loop_i_exact[OF run outer_inv_initial[OF c] le clean] rs i
  show ?thesis by (simp add: complete_upto_def)
qed

lemma Intersect_small_tokens:
  assumes "data_length \<noteq> 0" "data_length \<le> max_array_length object"
    "number_of_arrays object \<noteq> 0"
    "\<forall>v \<in> set (take data_length dat). unat v < multiple_guard_realloc_step"
  shows "\<exists>r. Intersect_Data_With_Document_Word_List fresh object dat data_length
               INTERSECTION_MODE_DEFAULTS = Inr r \<and>
             (\<forall>i < number_of_arrays object.
                set (array_content r i)
                  = set (array_content object i) \<inter> set (take data_length dat))"
proof -
  from Intersect_total[OF assms, of fresh] obtain r where
    r: "Intersect_Data_With_Document_Word_List fresh object dat data_length
               INTERSECTION_MODE_DEFAULTS = Inr r" by blast
  show ?thesis using r Intersect_exact[OF r] assms(4) by blast
qed

section \<open>The strategy kinds\<close>




section \<open>The growth of the guard\<close>

text \<open>
  C1. The claim holds of the specification and not of the code. For query tokens below
  1000 every result row is the intersection (\<open>Intersect_small_tokens\<close>). With the token
  1000 in a row and in the query, the intersection of the two sets is \<open>{1000}\<close>, and the
  call reads the guard, of 1000 cells, at index 1000: the test before the growth is
  \<^verbatim>\<open>data [i3] > size_multiple_guard\<close>, which the token equal to the size does not
  pass.
\<close>

theorem intersect_token_1000_out_of_bounds:
  "Intersect_Data_With_Document_Word_List fresh boundary_list [1000] 1
     INTERSECTION_MODE_DEFAULTS = Inl Guard_Index_Out_Of_Bounds \<and>
   set (array_content boundary_list 0) \<inter> set (take 1 [1000]) = {1000}"
  by code_simp

text \<open>
  C2. The claim holds of the specification and not of the code: the growth is a single
  \<^verbatim>\<open>if\<close>, not a loop. For the token 2500 the guard grows once, from 1000 to 2000
  cells, and is then read at index 2500.
\<close>

theorem intersect_token_2500_out_of_bounds:
  "length (grow_guard fresh (replicate multiple_guard_realloc_step False) (2500 :: 32 word))
     = 2000 \<and>
   Intersect_Data_With_Document_Word_List fresh far_list [2500] 1
     INTERSECTION_MODE_DEFAULTS = Inl Guard_Index_Out_Of_Bounds"
proof
  show "length (grow_guard fresh (replicate multiple_guard_realloc_step False) (2500 :: 32 word))
     = 2000"
    by (simp add: grow_guard_def REALLOC_def multiple_guard_realloc_step_def)
  have "on_match fresh 0 (2500 :: 32 word)
          (memset_guard \<lparr> multiple_guard = replicate multiple_guard_realloc_step False,
             intersection_result = r \<rparr>) = Inl Guard_Index_Out_Of_Bounds" for r
    by (rule on_match_out_of_bounds)
       (simp add: memset_guard_def multiple_guard_realloc_step_def)
  then show "Intersect_Data_With_Document_Word_List fresh far_list [2500] 1
     INTERSECTION_MODE_DEFAULTS = Inl Guard_Index_Out_Of_Bounds"
    by (simp add: far_list_eq Intersect_Data_With_Document_Word_List_def
          Create_Document_Word_List_def loop_i_def loop_i2_def loop_i3_def for_each_single)
qed

end
